theory Spec2Isabelle
  imports Complex_Main
begin

section \<open>Link rule engine and selection strategies\<close>

text \<open>
  The application hands the rule engine the ORM rows of the \<^verbatim>\<open>pages\<close> table
  (\<^verbatim>\<open>simulator.py\<close> line 291, \<^verbatim>\<open>export.py\<close> line 126). A row is a record with the columns
  the engine reads. Every read goes through \<^verbatim>\<open>getattr(page, name, None) or ...\<close>, which
  only tests whether the column is truthy: the empty string stands for a type or category
  that is \<^verbatim>\<open>NULL\<close> or empty, and \<open>0\<close> for a score that is \<^verbatim>\<open>NULL\<close> or zero. A row has no
  method \<^verbatim>\<open>get\<close>, so the alternative after \<^verbatim>\<open>or\<close> raises where it calls \<^verbatim>\<open>page.get\<close>. (A
  dictionary page whose values are all truthy, as in \<^verbatim>\<open>test_multi_rules.py\<close>, is read
  in the same way.)
\<close>

record page =
  page_id :: int
  url :: string
  page_type :: string
  category :: string
  current_pagerank :: real

text \<open>
  One entry of \<^verbatim>\<open>rules_config\<close>, with the defaults of \<^verbatim>\<open>rule_config.get\<close> already applied
  (see \<open>default_rule\<close>).
\<close>

record rule_config =
  source_types :: "string list"
  source_categories :: "string list"
  target_types :: "string list"
  target_categories :: "string list"
  selection_method :: string
  links_per_page :: int
  bidirectional :: bool
  avoid_self_links :: bool

definition default_rule :: rule_config where
  "default_rule =
     \<lparr>source_types = [], source_categories = [], target_types = [], target_categories = [],
      selection_method = ''category'', links_per_page = 3, bidirectional = False,
      avoid_self_links = True\<rparr>"

datatype py_error =
  ValueError | OverflowError | TypeError | ZeroDivisionError | AttributeError
  | NetworkXException

type_synonym link = "int \<times> int"

subsection \<open>Reading a page\<close>

text \<open>
  \<^verbatim>\<open>_get_page_id\<close>, \<^verbatim>\<open>_get_page_type\<close> and \<^verbatim>\<open>_get_page_category\<close> of \<^verbatim>\<open>MultiRule\<close> (lines 148
  to 158): \<^verbatim>\<open>getattr(page, 'type', None) or page.get('type', '')\<close>. On a row with a falsy
  column the right operand is evaluated and raises \<^verbatim>\<open>AttributeError\<close>.
\<close>

definition get_page_id :: "page \<Rightarrow> py_error + int" where
  "get_page_id p = (if page_id p \<noteq> 0 then Inr (page_id p) else Inl AttributeError)"

definition get_page_type :: "page \<Rightarrow> py_error + string" where
  "get_page_type p = (if page_type p \<noteq> [] then Inr (page_type p) else Inl AttributeError)"

definition get_page_category :: "page \<Rightarrow> py_error + string" where
  "get_page_category p = (if category p \<noteq> [] then Inr (category p) else Inl AttributeError)"

text \<open>
  A list comprehension \<^verbatim>\<open>[page for page in pages if test(page)]\<close> whose test may raise:
  the pages are tested in order and the first exception ends the comprehension.
\<close>

fun comprehension :: "(page \<Rightarrow> py_error + bool) \<Rightarrow> page list \<Rightarrow> py_error + page list" where
  "comprehension test [] = Inr []"
| "comprehension test (p # rest) =
     (case test p of
        Inl e \<Rightarrow> Inl e
      | Inr keep \<Rightarrow>
          (case comprehension test rest of
             Inl e \<Rightarrow> Inl e
           | Inr kept \<Rightarrow> Inr (if keep then p # kept else kept)))"

subsection \<open>Strings\<close>

text \<open>\<^verbatim>\<open>str.lower\<close> on the ASCII letters; other bytes are left as they are.\<close>

definition lower_char :: "char \<Rightarrow> char" where
  "lower_char c =
     (let k = (of_char c :: nat) in if 65 \<le> k \<and> k \<le> 90 then char_of (k + 32) else c)"

definition lower :: "string \<Rightarrow> string" where
  "lower s = map lower_char s"

subsection \<open>Random sampling\<close>

text \<open>
  \<^verbatim>\<open>random.sample(population, k)\<close> is Python's library function on the global generator.
  The generator state is a value of an arbitrary type \<open>'g\<close>, threaded through every call,
  and the sampler itself is a parameter \<open>smp\<close>; the wrapper writes out the library's
  \<^verbatim>\<open>ValueError\<close> for a negative or too large \<open>k\<close>.
\<close>

type_synonym 'g sampler = "'g \<Rightarrow> page list \<Rightarrow> nat \<Rightarrow> page list \<times> 'g"

definition random_sample ::
  "'g sampler \<Rightarrow> 'g \<Rightarrow> page list \<Rightarrow> int \<Rightarrow> py_error + (page list \<times> 'g)" where
  "random_sample smp g population k =
     (if 0 \<le> k \<and> k \<le> int (length population) then Inr (smp g population (nat k))
      else Inl ValueError)"

text \<open>
  The library's contract: a sample of size \<open>k\<close> has \<open>k\<close> elements, all taken from the
  population.
\<close>

definition sample_contract :: "'g sampler \<Rightarrow> bool" where
  "sample_contract smp \<longleftrightarrow>
     (\<forall>g xs k. k \<le> length xs \<longrightarrow>
        length (fst (smp g xs k)) = k \<and> set (fst (smp g xs k)) \<subseteq> set xs)"

text \<open>A deterministic sampler (the first \<open>k\<close> elements), used to run the model.\<close>

definition take_sampler :: "unit sampler" where
  "take_sampler g xs k = (take k xs, g)"

subsection \<open>Selectors\<close>

text \<open>
  The two comprehensions over \<^verbatim>\<open>candidate_pages\<close> that the category and the semantic
  selector build. The selectors read the category with
  \<^verbatim>\<open>getattr(page, 'category', None) or getattr(page, 'get', lambda x: None)('category')\<close>,
  which is \<^verbatim>\<open>None\<close> on a row with a falsy category and raises nothing; two such rows
  have equal categories.
\<close>

definition same_category_pages :: "page \<Rightarrow> page list \<Rightarrow> page list" where
  "same_category_pages source_page candidate_pages =
     filter (\<lambda>p. category p = category source_page) candidate_pages"

definition other_pages :: "page \<Rightarrow> page list \<Rightarrow> page list" where
  "other_pages source_page candidate_pages =
     filter (\<lambda>p. category p \<noteq> category source_page) candidate_pages"

text \<open>\<^verbatim>\<open>CategorySelector.select_targets\<close>\<close>

definition category_select ::
  "'g sampler \<Rightarrow> 'g \<Rightarrow> page \<Rightarrow> page list \<Rightarrow> int \<Rightarrow> py_error + (page list \<times> 'g)" where
  "category_select smp g source_page candidate_pages max_targets =
     (let same = same_category_pages source_page candidate_pages
      in if int (length same) \<le> max_targets then Inr (same, g)
         else random_sample smp g same max_targets)"

text \<open>
  \<^verbatim>\<open>int(max_targets * 0.7)\<close> is computed in double precision: the integer is converted
  to a double, multiplied by the double nearest to 0.7 (which is \<open>6305039478318694 / 2^53\<close>),
  the product is rounded to the nearest double, ties to even, and then truncated towards
  zero. Magnitudes are handled as naturals; \<open>(q, s)\<close> stands for \<open>q * 2 ^ s\<close>.
\<close>

fun bit_length :: "nat \<Rightarrow> nat" where
  "bit_length n = (if n = 0 then 0 else Suc (bit_length (n div 2)))"

definition round53 :: "nat \<Rightarrow> nat \<times> nat" where
  "round53 N =
     (let b = bit_length N
      in if b \<le> 53 then (N, 0)
         else (let s = b - 53; q = N div 2 ^ s; r = N mod 2 ^ s; half = 2 ^ (s - 1)
               in (if half < r \<or> (r = half \<and> odd q) then q + 1 else q, s)))"

text \<open>\<^verbatim>\<open>float(a)\<close> for \<open>a \<ge> 0\<close>: an integer too large for a double raises.\<close>

definition py_float :: "nat \<Rightarrow> py_error + (nat \<times> nat)" where
  "py_float a = (let (q, s) = round53 a
                 in if 2 ^ 1024 \<le> q * 2 ^ s then Inl OverflowError else Inr (q, s))"

definition int_mul_0_7 :: "int \<Rightarrow> py_error + int" where
  "int_mul_0_7 m =
     (case py_float (nat \<bar>m\<bar>) of
        Inl e \<Rightarrow> Inl e
      | Inr (q, s) \<Rightarrow>
          (let (q2, s2) = round53 (q * 6305039478318694);
               t = (q2 * 2 ^ (s + s2)) div 2 ^ 53
           in Inr (if 0 \<le> m then int t else - int t)))"

text \<open>\<^verbatim>\<open>SemanticSelector.select_targets\<close>\<close>

definition semantic_counts :: "nat \<Rightarrow> nat \<Rightarrow> int \<Rightarrow> py_error + (int \<times> int)" where
  "semantic_counts n_same n_other max_targets =
     (case int_mul_0_7 max_targets of
        Inl e \<Rightarrow> Inl e
      | Inr t \<Rightarrow>
          (let same_cat_count = min (int n_same) t;
               other_count = min (int n_other) (max_targets - same_cat_count)
           in Inr (same_cat_count, other_count)))"

definition semantic_select ::
  "'g sampler \<Rightarrow> 'g \<Rightarrow> page \<Rightarrow> page list \<Rightarrow> int \<Rightarrow> py_error + (page list \<times> 'g)" where
  "semantic_select smp g source_page candidate_pages max_targets =
     (let same = same_category_pages source_page candidate_pages;
          others = other_pages source_page candidate_pages
      in case semantic_counts (length same) (length others) max_targets of
           Inl e \<Rightarrow> Inl e
         | Inr (same_cat_count, other_count) \<Rightarrow>
             (case (if 0 < same_cat_count then random_sample smp g same same_cat_count
                    else Inr ([], g)) of
                Inl e \<Rightarrow> Inl e
              | Inr (targets1, g1) \<Rightarrow>
                  (case (if 0 < other_count then random_sample smp g1 others other_count
                         else Inr ([], g1)) of
                     Inl e \<Rightarrow> Inl e
                   | Inr (targets2, g2) \<Rightarrow> Inr (targets1 @ targets2, g2))))"

text \<open>\<^verbatim>\<open>RandomSelector.select_targets\<close>\<close>

definition random_select ::
  "'g sampler \<Rightarrow> 'g \<Rightarrow> page \<Rightarrow> page list \<Rightarrow> int \<Rightarrow> py_error + (page list \<times> 'g)" where
  "random_select smp g source_page candidate_pages max_targets =
     (if int (length candidate_pages) \<le> max_targets then Inr (candidate_pages, g)
      else random_sample smp g candidate_pages max_targets)"

text \<open>
  \<^verbatim>\<open>xs[:k]\<close>: a negative \<open>k\<close> counts from the end. \<^verbatim>\<open>sorted\<close> is stable, also with
  \<^verbatim>\<open>reverse=True\<close> (equal keys keep their order).
\<close>

definition py_prefix :: "int \<Rightarrow> 'a list \<Rightarrow> 'a list" where
  "py_prefix k xs = (if 0 \<le> k then take (nat k) xs else take (nat (int (length xs) + k)) xs)"

definition py_sorted :: "('a \<Rightarrow> real) \<Rightarrow> bool \<Rightarrow> 'a list \<Rightarrow> 'a list" where
  "py_sorted key reverse xs = (if reverse then rev (sort_key key (rev xs)) else sort_key key xs)"

text \<open>
  \<^verbatim>\<open>PageRankSelector.select_targets\<close>. The sort key is
  \<^verbatim>\<open>getattr(page, 'current_pagerank', 0) or getattr(page, 'get', lambda x: 0)('current_pagerank', 0)\<close>:
  on a row with a falsy score the one-parameter lambda is called with two arguments, a
  \<^verbatim>\<open>TypeError\<close>. \<^verbatim>\<open>sorted\<close> computes the key of every candidate.
\<close>

definition pagerank_select ::
  "bool \<Rightarrow> 'g \<Rightarrow> page \<Rightarrow> page list \<Rightarrow> int \<Rightarrow> py_error + (page list \<times> 'g)" where
  "pagerank_select prefer_high_pagerank g source_page candidate_pages max_targets =
     (if list_ex (\<lambda>p. current_pagerank p = 0) candidate_pages then Inl TypeError
      else (let sorted_pages = py_sorted current_pagerank prefer_high_pagerank candidate_pages
            in Inr (py_prefix max_targets sorted_pages, g)))"

datatype selector =
  CategorySelector | SemanticSelector | RandomSelector | PageRankSelector bool

fun select_targets ::
  "'g sampler \<Rightarrow> selector \<Rightarrow> 'g \<Rightarrow> page \<Rightarrow> page list \<Rightarrow> int \<Rightarrow> py_error + (page list \<times> 'g)"
where
  "select_targets smp CategorySelector g s c m = category_select smp g s c m"
| "select_targets smp SemanticSelector g s c m = semantic_select smp g s c m"
| "select_targets smp RandomSelector g s c m = random_select smp g s c m"
| "select_targets smp (PageRankSelector h) g s c m = pagerank_select h g s c m"

subsection \<open>\<^verbatim>\<open>MultiRule\<close>\<close>

text \<open>The selector table built in \<^verbatim>\<open>MultiRule.__init__\<close>.\<close>

definition selectors :: "(string \<times> selector) list" where
  "selectors =
     [(''category'', CategorySelector), (''semantic'', SemanticSelector),
      (''random'', RandomSelector), (''pagerank_high'', PageRankSelector True),
      (''pagerank_low'', PageRankSelector False)]"

text \<open>\<^verbatim>\<open>self.selectors.get(selection_method, self.selectors['category'])\<close>\<close>

definition get_selector :: "string \<Rightarrow> selector" where
  "get_selector method =
     (case map_of selectors method of Some s \<Rightarrow> s | None \<Rightarrow> CategorySelector)"

text \<open>
  \<^verbatim>\<open>MultiRule._filter_pages_by_criteria\<close>. The tests of its two comprehensions read the type
  and the category of each page and so raise on a row that lacks them.
\<close>

definition type_matches :: "string list \<Rightarrow> page \<Rightarrow> py_error + bool" where
  "type_matches types_filter p =
     (case get_page_type p of
        Inl e \<Rightarrow> Inl e
      | Inr t \<Rightarrow> Inr (lower t \<in> set (map lower types_filter)))"

definition category_matches :: "string list \<Rightarrow> page \<Rightarrow> py_error + bool" where
  "category_matches categories_filter p =
     (case get_page_category p of
        Inl e \<Rightarrow> Inl e
      | Inr c \<Rightarrow> Inr (lower c \<in> set (map lower categories_filter)))"

definition filter_pages_by_criteria ::
  "page list \<Rightarrow> string list \<Rightarrow> string list \<Rightarrow> py_error + page list" where
  "filter_pages_by_criteria pages types_filter categories_filter =
     (case (if types_filter \<noteq> [] then comprehension (type_matches types_filter) pages
            else Inr pages) of
        Inl e \<Rightarrow> Inl e
      | Inr filtered \<Rightarrow>
          (if categories_filter \<noteq> []
           then comprehension (category_matches categories_filter) filtered
           else Inr filtered))"

text \<open>The body of the loop over \<^verbatim>\<open>selected_targets\<close> (lines 107 to 118).\<close>

fun create_links :: "link set \<Rightarrow> bool \<Rightarrow> int \<Rightarrow> page list \<Rightarrow> py_error + link list" where
  "create_links existing_links_set bidir source_id [] = Inr []"
| "create_links existing_links_set bidir source_id (target_page # rest) =
     (case get_page_id target_page of
        Inl e \<Rightarrow> Inl e
      | Inr target_id \<Rightarrow>
          (let lnk = (source_id, target_id);
               reverse_link = (target_id, source_id);
               new_links =
                 (if lnk \<notin> existing_links_set
                  then lnk # (if bidir \<and> reverse_link \<notin> existing_links_set
                              then [reverse_link] else [])
                  else [])
           in case create_links existing_links_set bidir source_id rest of
                Inl e \<Rightarrow> Inl e
              | Inr later \<Rightarrow> Inr (new_links @ later)))"

text \<open>The test \<^verbatim>\<open>self._get_page_id(page) != source_id\<close> of the comprehension at lines 95 to 98.\<close>

definition not_source :: "int \<Rightarrow> page \<Rightarrow> py_error + bool" where
  "not_source source_id p =
     (case get_page_id p of Inl e \<Rightarrow> Inl e | Inr i \<Rightarrow> Inr (i \<noteq> source_id))"

text \<open>The loop over \<^verbatim>\<open>source_pages\<close> (lines 90 to 118); an exception ends it.\<close>

fun source_loop ::
  "'g sampler \<Rightarrow> selector \<Rightarrow> rule_config \<Rightarrow> link set \<Rightarrow> page list \<Rightarrow> 'g \<Rightarrow> page list
     \<Rightarrow> py_error + (link list \<times> 'g)" where
  "source_loop smp sel cfg existing_links_set target_pages g [] = Inr ([], g)"
| "source_loop smp sel cfg existing_links_set target_pages g (source_page # rest) =
     (case get_page_id source_page of
        Inl e \<Rightarrow> Inl e
      | Inr source_id \<Rightarrow>
          (case (if avoid_self_links cfg
                 then comprehension (not_source source_id) target_pages
                 else Inr target_pages) of
             Inl e \<Rightarrow> Inl e
           | Inr available_targets \<Rightarrow>
               (case select_targets smp sel g source_page available_targets
                       (links_per_page cfg) of
                  Inl e \<Rightarrow> Inl e
                | Inr (selected_targets, g1) \<Rightarrow>
                    (case create_links existing_links_set (bidirectional cfg) source_id
                            selected_targets of
                       Inl e \<Rightarrow> Inl e
                     | Inr new_links \<Rightarrow>
                         (case source_loop smp sel cfg existing_links_set target_pages g1
                                 rest of
                            Inl e \<Rightarrow> Inl e
                          | Inr (later, g2) \<Rightarrow> Inr (new_links @ later, g2))))))"

text \<open>\<^verbatim>\<open>MultiRule._apply_single_rule\<close>\<close>

definition apply_single_rule ::
  "'g sampler \<Rightarrow> 'g \<Rightarrow> page list \<Rightarrow> link set \<Rightarrow> rule_config \<Rightarrow> py_error + (link list \<times> 'g)"
where
  "apply_single_rule smp g pages existing_links_set cfg =
     (case filter_pages_by_criteria pages (source_types cfg) (source_categories cfg) of
        Inl e \<Rightarrow> Inl e
      | Inr source_pages \<Rightarrow>
          (case filter_pages_by_criteria pages (target_types cfg) (target_categories cfg) of
             Inl e \<Rightarrow> Inl e
           | Inr target_pages \<Rightarrow>
               (let sel = get_selector (selection_method cfg)
                in source_loop smp sel cfg existing_links_set target_pages g source_pages)))"

text \<open>
  The inner loop of \<^verbatim>\<open>generate_links\<close> (lines 45 to 48): it returns the links appended to
  \<^verbatim>\<open>all_new_links\<close> and the updated set.
\<close>

fun add_new_links :: "link set \<Rightarrow> link list \<Rightarrow> link list \<times> link set" where
  "add_new_links existing_links_set [] = ([], existing_links_set)"
| "add_new_links existing_links_set (lnk # rest) =
     (if lnk \<notin> existing_links_set
      then (let (added, s) = add_new_links (insert lnk existing_links_set) rest
            in (lnk # added, s))
      else add_new_links existing_links_set rest)"

text \<open>The loop over \<^verbatim>\<open>self.rules_config\<close> (lines 39 to 48).\<close>

fun rules_loop ::
  "'g sampler \<Rightarrow> page list \<Rightarrow> link set \<Rightarrow> 'g \<Rightarrow> rule_config list \<Rightarrow> py_error + (link list \<times> 'g)"
where
  "rules_loop smp pages existing_links_set g [] = Inr ([], g)"
| "rules_loop smp pages existing_links_set g (cfg # rest) =
     (case apply_single_rule smp g pages existing_links_set cfg of
        Inl e \<Rightarrow> Inl e
      | Inr (rule_links, g1) \<Rightarrow>
          (let (added, s) = add_new_links existing_links_set rule_links
           in case rules_loop smp pages s g1 rest of
                Inl e \<Rightarrow> Inl e
              | Inr (later, g2) \<Rightarrow> Inr (added @ later, g2)))"

text \<open>\<^verbatim>\<open>MultiRule.generate_links\<close>\<close>

definition generate_links ::
  "'g sampler \<Rightarrow> 'g \<Rightarrow> rule_config list \<Rightarrow> page list \<Rightarrow> link list
     \<Rightarrow> py_error + (link list \<times> 'g)" where
  "generate_links smp g rules_config pages existing_links =
     rules_loop smp pages (set existing_links) g rules_config"

subsection \<open>Example data for the rule engine\<close>

definition mk_page :: "int \<Rightarrow> string \<Rightarrow> string \<Rightarrow> page" where
  "mk_page i t c =
     \<lparr>page_id = i, url = c @ ''/'' @ t, page_type = t, category = c, current_pagerank = 0\<rparr>"

definition shop_pages :: "page list" where
  "shop_pages =
     [mk_page 1 ''product'' ''electronics'', mk_page 2 ''product'' ''electronics'',
      mk_page 3 ''product'' ''clothing'', mk_page 4 ''category'' ''electronics'']"

definition product_rule :: rule_config where
  "product_rule =
     default_rule\<lparr>source_types := [''Product''], target_types := [''product''],
       links_per_page := 2, bidirectional := True\<rparr>"

definition category_rule :: rule_config where
  "category_rule = default_rule\<lparr>source_types := [''category''], target_types := [''product'']\<rparr>"

definition typo_rule :: rule_config where
  "typo_rule = product_rule\<lparr>selection_method := ''categry''\<rparr>"

definition negative_rule :: rule_config where
  "negative_rule = typo_rule\<lparr>links_per_page := - 1\<rparr>"

definition mix_source :: page where
  "mix_source = mk_page 7 ''product'' ''a''"

definition mix_candidates :: "page list" where
  "mix_candidates =
     [mk_page 1 ''product'' ''a'', mk_page 2 ''product'' ''a'', mk_page 3 ''product'' ''a'',
      mk_page 4 ''product'' ''b'', mk_page 5 ''product'' ''b'', mk_page 6 ''product'' ''b'']"

text \<open>
  The split as the specification words it: 70% and 30% of \<open>max_targets\<close>, each rounded
  down.
\<close>

definition spec_mix_counts :: "int \<Rightarrow> int \<times> int" where
  "spec_mix_counts m = (\<lfloor>0.7 * real_of_int m\<rfloor>, \<lfloor>0.3 * real_of_int m\<rfloor>)"

section \<open>The constrained solver\<close>

text \<open>
  Scores are double-precision numbers in the source. The model computes with real
  numbers: rounding is left out, and a division by zero, which numpy answers with
  \<^verbatim>\<open>nan\<close> or \<^verbatim>\<open>inf\<close> entries, is the result \<open>None\<close>. A vector is a list; the operand
  lists of one operation have the same length, as numpy requires.
\<close>

subsection \<open>Vector operations\<close>

text \<open>A ceiling is a number or \<^verbatim>\<open>np.inf\<close>, written \<open>None\<close>.\<close>

type_synonym ceiling = "real option"

definition np_maximum :: "real list \<Rightarrow> real list \<Rightarrow> real list" where
  "np_maximum xs ys = map2 max xs ys"

definition min_ceiling :: "real \<Rightarrow> ceiling \<Rightarrow> real" where
  "min_ceiling x c = (case c of None \<Rightarrow> x | Some u \<Rightarrow> min x u)"

definition np_minimum :: "real list \<Rightarrow> ceiling list \<Rightarrow> real list" where
  "np_minimum xs cs = map2 min_ceiling xs cs"

text \<open>\<^verbatim>\<open>np.clip(a, a_min, a_max)\<close> is \<^verbatim>\<open>minimum(a_max, maximum(a, a_min))\<close>.\<close>

definition np_clip :: "real list \<Rightarrow> real list \<Rightarrow> ceiling list \<Rightarrow> real list" where
  "np_clip xs floors ceilings = np_minimum (np_maximum xs floors) ceilings"

definition below_ceiling :: "real \<Rightarrow> ceiling \<Rightarrow> bool" where
  "below_ceiling x c = (case c of None \<Rightarrow> True | Some u \<Rightarrow> x < u)"

text \<open>\<^verbatim>\<open>xs / d\<close>: a zero divisor leaves no finite entry.\<close>

definition np_divide :: "real list \<Rightarrow> real \<Rightarrow> real list option" where
  "np_divide xs d = (if d = 0 \<and> xs \<noteq> [] then None else Some (map (\<lambda>x. x / d) xs))"

text \<open>Boolean-mask indexing \<^verbatim>\<open>xs[mask]\<close> and the update \<^verbatim>\<open>xs[mask] += ys\<close>.\<close>

definition mask_select :: "bool list \<Rightarrow> 'a list \<Rightarrow> 'a list" where
  "mask_select msk xs = map snd (filter fst (zip msk xs))"

fun masked_add :: "bool list \<Rightarrow> real list \<Rightarrow> real list \<Rightarrow> real list" where
  "masked_add (True # msk) (x # xs) (y # ys) = (x + y) # masked_add msk xs ys"
| "masked_add (False # msk) (x # xs) ys = x # masked_add msk xs ys"
| "masked_add msk xs ys = xs"

subsection \<open>\<^verbatim>\<open>_water_filling_projection\<close>\<close>

text \<open>Steps 1 and 2: the floors, then the ceilings.\<close>

definition wf_capped :: "real list \<Rightarrow> real list \<Rightarrow> ceiling list \<Rightarrow> real list" where
  "wf_capped p floors ceilings =
     (let p_floored = np_maximum p floors in np_minimum p_floored ceilings)"

text \<open>\<^verbatim>\<open>can_adjust = (p_capped > floors) & (p_capped < ceilings)\<close>\<close>

definition can_adjust_mask :: "real list \<Rightarrow> real list \<Rightarrow> ceiling list \<Rightarrow> bool list" where
  "can_adjust_mask p_capped floors ceilings =
     map2 (\<lambda>(x, f) c. f < x \<and> below_ceiling x c) (zip p_capped floors) ceilings"

text \<open>
  The branch \<^verbatim>\<open>deficit > 0\<close> (lines 245 to 251). The capacities
  \<^verbatim>\<open>ceilings[can_adjust] - p_capped[can_adjust]\<close> have a finite sum only if each of them is
  finite; an infinite sum is not below the deficit.
\<close>

definition add_mass_adjustment ::
  "real list \<Rightarrow> ceiling list \<Rightarrow> bool list \<Rightarrow> real \<Rightarrow> real list" where
  "add_mass_adjustment p_capped ceilings can_adjust deficit =
     (let n_adjustable = length (filter id can_adjust);
          capacities = map2 (\<lambda>c x. map_option (\<lambda>u. u - x) c)
                         (mask_select can_adjust ceilings) (mask_select can_adjust p_capped)
      in case those capacities of
           None \<Rightarrow> replicate n_adjustable (deficit / real n_adjustable)
         | Some caps \<Rightarrow>
             (let available_capacity = sum_list caps
              in if available_capacity < deficit
                 then map (\<lambda>c. c * (deficit / available_capacity)) caps
                 else replicate n_adjustable (deficit / real n_adjustable)))"

text \<open>The branch \<^verbatim>\<open>deficit < 0\<close> (lines 257 to 263).\<close>

definition remove_mass_adjustment ::
  "real list \<Rightarrow> real list \<Rightarrow> bool list \<Rightarrow> real \<Rightarrow> real list" where
  "remove_mass_adjustment p_capped floors can_adjust deficit =
     (let n_adjustable = length (filter id can_adjust);
          caps = map2 (\<lambda>x f. x - f)
                   (mask_select can_adjust p_capped) (mask_select can_adjust floors);
          available_capacity = sum_list caps
      in if available_capacity < - deficit
         then map (\<lambda>c. - c * (- deficit / available_capacity)) caps
         else replicate n_adjustable (deficit / real n_adjustable))"

text \<open>\<^verbatim>\<open>p_capped\<close> after \<^verbatim>\<open>p_capped[can_adjust] += adjustment\<close> (lines 243 to 265).\<close>

definition wf_adjusted :: "real list \<Rightarrow> real list \<Rightarrow> ceiling list \<Rightarrow> real list" where
  "wf_adjusted p floors ceilings =
     (let p_capped = wf_capped p floors ceilings;
          deficit = 1 - sum_list p_capped;
          can_adjust = can_adjust_mask p_capped floors ceilings;
          adjustment =
            (if deficit > 0 then add_mass_adjustment p_capped ceilings can_adjust deficit
             else remove_mass_adjustment p_capped floors can_adjust deficit)
      in masked_add can_adjust p_capped adjustment)"

definition water_filling_projection ::
  "real list \<Rightarrow> real list \<Rightarrow> ceiling list option \<Rightarrow> real list option" where
  "water_filling_projection p floors ceilings_arg =
     (let n = length p;
          ceilings = (case ceilings_arg of None \<Rightarrow> replicate n None | Some cs \<Rightarrow> cs);
          p_capped = wf_capped p floors ceilings;
          current_sum = sum_list p_capped;
          deficit = 1 - current_sum
      in if \<bar>deficit\<bar> < 1 / 10 ^ 10 then Some p_capped
         else (let can_adjust = can_adjust_mask p_capped floors ceilings;
                   n_adjustable = length (filter id can_adjust)
               in if n_adjustable = 0 then np_divide p_capped current_sum
                  else (let p_final = np_clip (wf_adjusted p floors ceilings) floors ceilings
                        in np_divide p_final (sum_list p_final))))"

subsection \<open>The redistribution, entry by entry\<close>

text \<open>
  A description of the step that adds mass in the words of the specification, against
  which the masked updates of the source are compared. An entry is a clamped value with
  its floor and its ceiling; it is adjustable when it lies strictly between them; its
  remaining capacity is the ceiling minus the value. The total capacity of the adjustable
  entries is \<open>None\<close> when one of them has no ceiling.
\<close>

type_synonym entry = "real \<times> real \<times> ceiling"

definition adjustable :: "entry \<Rightarrow> bool" where
  "adjustable e = (case e of (x, f, c) \<Rightarrow> f < x \<and> below_ceiling x c)"

fun remaining_capacity :: "entry list \<Rightarrow> real option" where
  "remaining_capacity [] = Some 0"
| "remaining_capacity ((x, f, c) # es) =
     (if adjustable (x, f, c)
      then (case c of
              None \<Rightarrow> None
            | Some u \<Rightarrow> map_option (\<lambda>t. (u - x) + t) (remaining_capacity es))
      else remaining_capacity es)"

text \<open>Every adjustable entry receives the same share of the deficit.\<close>

definition even_fill :: "real \<Rightarrow> entry list \<Rightarrow> real list" where
  "even_fill deficit es =
     map (\<lambda>(x, f, c). if adjustable (x, f, c)
                        then x + deficit / real (length (filter adjustable es)) else x) es"

text \<open>
  Every adjustable entry receives a share of the deficit proportional to its remaining
  capacity, \<open>cap\<close> being the total.
\<close>

definition proportional_fill :: "real \<Rightarrow> real \<Rightarrow> entry list \<Rightarrow> real list" where
  "proportional_fill deficit cap es =
     map (\<lambda>(x, f, c). case c of
                          None \<Rightarrow> x
                        | Some u \<Rightarrow> if adjustable (x, f, c) then x + (u - x) * (deficit / cap)
                                    else x) es"

text \<open>The clamped entries of a call and its deficit.\<close>

definition wf_entries :: "real list \<Rightarrow> real list \<Rightarrow> ceiling list \<Rightarrow> entry list" where
  "wf_entries p floors ceilings = zip (wf_capped p floors ceilings) (zip floors ceilings)"

definition wf_deficit :: "real list \<Rightarrow> real list \<Rightarrow> ceiling list \<Rightarrow> real" where
  "wf_deficit p floors ceilings = 1 - sum_list (wf_capped p floors ceilings)"

subsection \<open>Entries of one call\<close>

text \<open>
  For the proofs the three argument vectors are read as one list of triples (input value,
  floor, ceiling); the functions below are the per-entry parts of the vector operations.
\<close>

definition clamp_entry :: "entry \<Rightarrow> real" where
  "clamp_entry e = (case e of (a, f, c) \<Rightarrow> min_ceiling (max a f) c)"

definition entry_adjustable :: "entry \<Rightarrow> bool" where
  "entry_adjustable e = (case e of (a, f, c) \<Rightarrow> f < clamp_entry (a, f, c) \<and> below_ceiling (clamp_entry (a, f, c)) c)"

definition clamped_entry :: "entry \<Rightarrow> entry" where
  "clamped_entry e = (clamp_entry e, fst (snd e), snd (snd e))"

definition entry_capacity :: "entry \<Rightarrow> real option" where
  "entry_capacity e = map_option (\<lambda>u. u - clamp_entry e) (snd (snd e))"

definition clip_entry :: "real \<Rightarrow> entry \<Rightarrow> real" where
  "clip_entry x e = min_ceiling (max x (fst (snd e))) (snd (snd e))"

subsection \<open>Dictionaries and sets\<close>

text \<open>
  A Python dictionary is an association list with distinct keys in insertion order;
  assigning to a key that is present replaces its value in place. A Python set of page
  ids is a duplicate-free list (the model iterates over it in insertion order).
\<close>

fun dict_set :: "'k \<Rightarrow> 'v \<Rightarrow> ('k \<times> 'v) list \<Rightarrow> ('k \<times> 'v) list" where
  "dict_set k v [] = [(k, v)]"
| "dict_set k v ((k', v') # d) = (if k = k' then (k, v) # d else (k', v') # dict_set k v d)"

definition dict_get :: "('k \<times> 'v) list \<Rightarrow> 'k \<Rightarrow> 'v \<Rightarrow> 'v" where
  "dict_get d k dflt = (case map_of d k of Some v \<Rightarrow> v | None \<Rightarrow> dflt)"

definition set_add :: "'a \<Rightarrow> 'a list \<Rightarrow> 'a list" where
  "set_add x xs = (if x \<in> set xs then xs else xs @ [x])"

text \<open>An optional dictionary argument is used only if it is given and not empty.\<close>

definition truthy :: "('k \<times> 'v) list option \<Rightarrow> ('k \<times> 'v) list" where
  "truthy arg = (case arg of None \<Rightarrow> [] | Some d \<Rightarrow> d)"

subsection \<open>\<^verbatim>\<open>_prepare_page_data\<close>\<close>

record page_data =
  pd_pages :: "page list"
  id_to_url :: "(int \<times> string) list"
  url_to_id :: "(string \<times> int) list"
  protected_ids :: "int list"
  boosted_ids :: "int list"
  floor_values :: "(int \<times> real) list"
  target_values :: "(int \<times> real) list"
  outflow_caps :: "(int \<times> real) list"

text \<open>The loop over \<^verbatim>\<open>pages\<close> that builds the two mappings (lines 140 to 145).\<close>

definition build_mappings :: "page list \<Rightarrow> (int \<times> string) list \<times> (string \<times> int) list" where
  "build_mappings pages =
     fold (\<lambda>p (i2u, u2i). (dict_set (page_id p) (url p) i2u, dict_set (url p) (page_id p) u2i))
       pages ([], [])"

text \<open>
  The loops over the protected and the boosted pages (lines 148 to 161): an id set and a
  dictionary of factors. An URL that is not a key of \<^verbatim>\<open>url_to_id\<close> is skipped.
\<close>

definition collect_factors ::
  "(string \<times> int) list \<Rightarrow> (string \<times> real) list \<Rightarrow> int list \<times> (int \<times> real) list" where
  "collect_factors u2i items =
     fold (\<lambda>(u, factor) (ids, vals).
             case map_of u2i u of
               Some pid \<Rightarrow> (set_add pid ids, dict_set pid factor vals)
             | None \<Rightarrow> (ids, vals))
       items ([], [])"

definition prepare_page_data ::
  "page list \<Rightarrow> (string \<times> real) list option \<Rightarrow> (string \<times> real) list option
     \<Rightarrow> (string \<times> real) list option \<Rightarrow> page_data" where
  "prepare_page_data pages protected_pages boosted_pages alpha_cap =
     (let (i2u, u2i) = build_mappings pages;
          (p_ids, floors) = collect_factors u2i (truthy protected_pages);
          (b_ids, targets) = collect_factors u2i (truthy boosted_pages);
          (c_ids, caps) = collect_factors u2i (truthy alpha_cap)
      in \<lparr>pd_pages = pages, id_to_url = i2u, url_to_id = u2i, protected_ids = p_ids,
          boosted_ids = b_ids, floor_values = floors, target_values = targets,
          outflow_caps = caps\<rparr>)"

subsection \<open>The transition matrix\<close>

text \<open>A matrix is the list of its rows. \<^verbatim>\<open>{page_id: idx for idx, page_id in enumerate(page_ids)}\<close>\<close>

definition id_to_idx_of :: "int list \<Rightarrow> (int \<times> nat) list" where
  "id_to_idx_of page_ids = fold (\<lambda>(idx, pid) d. dict_set pid idx d) (enumerate 0 page_ids) []"

text \<open>\<^verbatim>\<open>link_weights.get((from_id, to_id), 1.0) if link_weights else 1.0\<close>\<close>

definition link_weight :: "(link \<times> real) list option \<Rightarrow> link \<Rightarrow> real" where
  "link_weight link_weights lnk = dict_get (truthy link_weights) lnk 1"

text \<open>
  The adjacency matrix (lines 280 to 292); \<^verbatim>\<open>csr_matrix\<close> adds up the weights of a link
  that occurs more than once.
\<close>

definition adjacency ::
  "nat \<Rightarrow> (int \<times> nat) list \<Rightarrow> (link \<times> real) list option \<Rightarrow> link list \<Rightarrow> real list list" where
  "adjacency n id_to_idx link_weights links =
     fold (\<lambda>(from_id, to_id) A.
             case (map_of id_to_idx from_id, map_of id_to_idx to_id) of
               (Some from_idx, Some to_idx) \<Rightarrow>
                 A[from_idx := (A ! from_idx)
                     [to_idx := A ! from_idx ! to_idx + link_weight link_weights (from_id, to_id)]]
             | _ \<Rightarrow> A)
       links (replicate n (replicate n 0))"

text \<open>One outflow cap (lines 297 to 304).\<close>

definition apply_cap :: "(int \<times> nat) list \<Rightarrow> int \<times> real \<Rightarrow> real list list \<Rightarrow> real list list" where
  "apply_cap id_to_idx item A =
     (case item of (pid, cap_factor) \<Rightarrow>
        (case map_of id_to_idx pid of
           None \<Rightarrow> A
         | Some idx \<Rightarrow>
             (let row_data = A ! idx
              in if sum_list row_data > 0
                 then (let row_data = map (\<lambda>w. w * cap_factor) row_data;
                           row_data = row_data[idx := row_data ! idx + (1 - cap_factor)]
                       in A[idx := row_data])
                 else A)))"

text \<open>
  Lines 307 to 310: the out-degrees with every zero replaced by one, and
  \<^verbatim>\<open>M = A.T @ D_inv\<close>, so that \<open>M ! j ! i = A ! i ! j * (1 / out_degrees ! i)\<close>.
\<close>

definition column_stochastic :: "real list list \<Rightarrow> real list list" where
  "column_stochastic A =
     (let n = length A;
          out_degrees = map sum_list A;
          out_degrees = map (\<lambda>d. if d = 0 then 1 else d) out_degrees
      in map (\<lambda>j. map (\<lambda>i. A ! i ! j * (1 / out_degrees ! i)) [0..<n]) [0..<n])"

text \<open>The matrix \<^verbatim>\<open>A\<close> before it is normalised (lines 275 to 304).\<close>

definition weighted_adjacency ::
  "page_data \<Rightarrow> link list \<Rightarrow> (link \<times> real) list option \<Rightarrow> bool \<Rightarrow> real list list" where
  "weighted_adjacency pd links link_weights apply_caps =
     (let n_pages = length (pd_pages pd);
          page_ids = map page_id (pd_pages pd);
          id_to_idx = id_to_idx_of page_ids;
          A = adjacency n_pages id_to_idx link_weights links
      in if apply_caps \<and> outflow_caps pd \<noteq> []
         then fold (apply_cap id_to_idx) (outflow_caps pd) A else A)"

definition build_transition_matrix ::
  "page_data \<Rightarrow> link list \<Rightarrow> (link \<times> real) list option \<Rightarrow> bool
     \<Rightarrow> real list list \<times> (int \<times> nat) list" where
  "build_transition_matrix pd links link_weights apply_caps =
     (let page_ids = map page_id (pd_pages pd);
          id_to_idx = id_to_idx_of page_ids;
          A = weighted_adjacency pd links link_weights apply_caps
      in (column_stochastic A, id_to_idx))"

definition matrix_column :: "real list list \<Rightarrow> nat \<Rightarrow> real list" where
  "matrix_column M i = map (\<lambda>row. row ! i) M"

text \<open>\<^verbatim>\<open>M.dot(p)\<close>\<close>

definition dot :: "real list list \<Rightarrow> real list \<Rightarrow> real list" where
  "dot M p = map (\<lambda>row. sum_list (map2 (*) row p)) M"

subsection \<open>\<^verbatim>\<open>_compute_teleportation_vector\<close>\<close>

text \<open>
  The needs of one pocket (lines 327 to 335 and 352 to 360). Every id of the set has a
  factor, stored with it by \<^verbatim>\<open>_prepare_page_data\<close>.
\<close>

definition collect_needs ::
  "int list \<Rightarrow> (int \<times> nat) list \<Rightarrow> (int \<times> real) list \<Rightarrow> real list \<Rightarrow> real list
     \<Rightarrow> (nat \<times> real) list" where
  "collect_needs ids id_to_idx factors baseline_vec p_current =
     concat (map (\<lambda>pid.
        case (map_of id_to_idx pid, map_of factors pid) of
          (Some idx, Some factor) \<Rightarrow>
            (let wanted = factor * baseline_vec ! idx
             in if p_current ! idx < wanted then [(idx, wanted - p_current ! idx)] else [])
        | _ \<Rightarrow> []) ids)"

text \<open>The allocation loop (lines 342 to 345 and 367 to 370).\<close>

fun allocate ::
  "real \<Rightarrow> real \<Rightarrow> (nat \<times> real) list \<Rightarrow> real list \<times> real \<Rightarrow> real list \<times> real" where
  "allocate eta budget_per_unit [] (v, used) = (v, used)"
| "allocate eta budget_per_unit ((idx, need) # rest) (v, used) =
     (let allocation = min (need * budget_per_unit) (eta - used)
      in allocate eta budget_per_unit rest (v[idx := allocation], used + allocation))"

definition pocket :: "nat \<Rightarrow> real \<Rightarrow> (nat \<times> real) list \<Rightarrow> real list \<times> real" where
  "pocket n_pages eta needs =
     (if needs \<noteq> [] \<and> eta > 0
      then (let total_need = sum_list (map snd needs);
                budget_per_unit = (if total_need > 0 then eta / total_need else 0)
            in allocate eta budget_per_unit needs (replicate n_pages 0, 0))
      else (replicate n_pages 0, 0))"

definition compute_teleportation_vector ::
  "page_data \<Rightarrow> real list \<Rightarrow> real list \<Rightarrow> real \<Rightarrow> real \<Rightarrow> (int \<times> nat) list
     \<Rightarrow> real list option \<times> real \<times> real" where
  "compute_teleportation_vector pd p_current baseline_vec eta_protect eta_boost id_to_idx =
     (let n_pages = length p_current;
          v_base = replicate n_pages (1 / real n_pages);
          protect_needs =
            collect_needs (protected_ids pd) id_to_idx (floor_values pd) baseline_vec p_current;
          (v_protect, protect_budget_used) = pocket n_pages eta_protect protect_needs;
          boost_needs =
            collect_needs (boosted_ids pd) id_to_idx (target_values pd) baseline_vec p_current;
          (v_boost, boost_budget_used) = pocket n_pages eta_boost boost_needs;
          unused_protect = eta_protect - protect_budget_used;
          unused_boost = eta_boost - boost_budget_used;
          base_weight = 1 - eta_protect - eta_boost + unused_protect + unused_boost;
          v_final = map2 (+) (map2 (+) (map (\<lambda>x. base_weight * x) v_base) v_protect) v_boost
      in (np_divide v_final (sum_list v_final), protect_budget_used, boost_budget_used))"

subsection \<open>\<^verbatim>\<open>_calculate_fast\<close> and \<^verbatim>\<open>_calculate_exact\<close>\<close>

text \<open>The floors and ceilings of the projection (lines 399 to 412).\<close>

definition constraint_floors ::
  "page_data \<Rightarrow> (int \<times> nat) list \<Rightarrow> real list \<Rightarrow> real list" where
  "constraint_floors pd id_to_idx baseline_vec =
     fold (\<lambda>pid floors.
             case (map_of id_to_idx pid, map_of (floor_values pd) pid) of
               (Some idx, Some floor_factor) \<Rightarrow> floors[idx := floor_factor * baseline_vec ! idx]
             | _ \<Rightarrow> floors)
       (protected_ids pd) (replicate (length baseline_vec) 0)"

definition constraint_ceilings ::
  "page_data \<Rightarrow> (int \<times> nat) list \<Rightarrow> real list \<Rightarrow> ceiling list" where
  "constraint_ceilings pd id_to_idx baseline_vec =
     fold (\<lambda>pid ceilings.
             case (map_of id_to_idx pid, map_of (target_values pd) pid) of
               (Some idx, Some target_factor) \<Rightarrow>
                 ceilings[idx := Some (2 * target_factor * baseline_vec ! idx)]
             | _ \<Rightarrow> ceilings)
       (boosted_ids pd) (replicate (length baseline_vec) None)"

text \<open>One pass of the loop body up to the projection (lines 421 to 432).\<close>

definition fast_step ::
  "page_data \<Rightarrow> real list list \<Rightarrow> (int \<times> nat) list \<Rightarrow> real list \<Rightarrow> real list
     \<Rightarrow> ceiling list \<Rightarrow> real \<Rightarrow> real \<Rightarrow> real \<Rightarrow> real list \<Rightarrow> real list option" where
  "fast_step pd M id_to_idx baseline_vec floors ceilings damping eta_protect eta_boost p =
     (case compute_teleportation_vector pd p baseline_vec eta_protect eta_boost id_to_idx of
        (None, _) \<Rightarrow> None
      | (Some v, _) \<Rightarrow>
          (let p_new = map2 (+) (map (\<lambda>x. damping * x) (dot M p))
                         (map (\<lambda>x. (1 - damping) * x) v)
           in water_filling_projection p_new floors (Some ceilings)))"

text \<open>\<^verbatim>\<open>np.linalg.norm(p - p_old, ord=1)\<close>\<close>

definition l1_diff :: "real list \<Rightarrow> real list \<Rightarrow> real" where
  "l1_diff p p_old = sum_list (map2 (\<lambda>x y. \<bar>x - y\<bar>) p p_old)"

text \<open>
  The loop \<^verbatim>\<open>for iteration in range(max_iter)\<close> with its convergence test every tenth
  iteration: \<open>iteration\<close> counts up, \<open>remaining\<close> down.
\<close>

fun fast_loop ::
  "(real list \<Rightarrow> real list option) \<Rightarrow> real \<Rightarrow> nat \<Rightarrow> nat \<Rightarrow> real list \<Rightarrow> real list option"
where
  "fast_loop step tolerance iteration 0 p = Some p"
| "fast_loop step tolerance iteration (Suc remaining) p =
     (case step p of
        None \<Rightarrow> None
      | Some p' \<Rightarrow>
          if iteration mod 10 = 0 \<and> l1_diff p' p < tolerance then Some p'
          else fast_loop step tolerance (Suc iteration) remaining p')"

text \<open>\<^verbatim>\<open>{page_ids[i]: p[i] for i in range(n_pages)}\<close>\<close>

definition scores_dict :: "int list \<Rightarrow> real list \<Rightarrow> (int \<times> real) list" where
  "scores_dict page_ids p = fold (\<lambda>(pid, x) d. dict_set pid x d) (zip page_ids p) []"

definition calculate_fast ::
  "page_data \<Rightarrow> link list \<Rightarrow> (int \<times> real) list \<Rightarrow> real \<Rightarrow> real \<Rightarrow> real \<Rightarrow> real \<Rightarrow> int
     \<Rightarrow> (int \<times> real) list option" where
  "calculate_fast pd links baseline_pr damping eta_protect eta_boost tolerance max_iter =
     (let n_pages = length (pd_pages pd);
          page_ids = map page_id (pd_pages pd);
          (M, id_to_idx) = build_transition_matrix pd links None True;
          p = map (\<lambda>pid. dict_get baseline_pr pid (1 / real n_pages)) page_ids;
          baseline_vec = p;
          floors = constraint_floors pd id_to_idx baseline_vec;
          ceilings = constraint_ceilings pd id_to_idx baseline_vec;
          step = fast_step pd M id_to_idx baseline_vec floors ceilings damping eta_protect
                   eta_boost
      in map_option (scores_dict page_ids) (fast_loop step tolerance 0 (nat max_iter) p))"

text \<open>The exact branch delegates (lines 195 to 198).\<close>

definition calculate_exact ::
  "page_data \<Rightarrow> link list \<Rightarrow> (int \<times> real) list \<Rightarrow> real \<Rightarrow> real \<Rightarrow> real \<Rightarrow> real \<Rightarrow> int
     \<Rightarrow> (int \<times> real) list option" where
  "calculate_exact pd links baseline_pr damping eta_protect eta_boost tolerance max_iter =
     calculate_fast pd links baseline_pr damping eta_protect eta_boost tolerance max_iter"

subsection \<open>The baseline calculator (\<^verbatim>\<open>NetworkXPageRankCalculator\<close>)\<close>

text \<open>
  \<^verbatim>\<open>nx.pagerank\<close> is the library's function and a parameter of the model. It is given the
  node list, the edges as they are added to the graph (with a weight attribute when link
  weights are in use), \<^verbatim>\<open>alpha\<close>, \<^verbatim>\<open>max_iter\<close> and \<^verbatim>\<open>tol\<close>; it returns scores, raises
  \<^verbatim>\<open>NetworkXError\<close>, or raises another exception of the library (a power iteration that
  does not converge).
\<close>

datatype nx_outcome = NxScores "(int \<times> real) list" | NxNetworkXError | NxOtherException

type_synonym nx_pagerank =
  "int list \<Rightarrow> (link \<times> real option) list \<Rightarrow> real \<Rightarrow> int \<Rightarrow> real \<Rightarrow> nx_outcome"

definition uniform_scores :: "int list \<Rightarrow> (int \<times> real) list" where
  "uniform_scores page_ids =
     fold (\<lambda>pid d. dict_set pid (1 / real (length page_ids)) d) page_ids []"

text \<open>\<^verbatim>\<open>_calculate_standard\<close>\<close>

definition calculate_standard ::
  "nx_pagerank \<Rightarrow> page list \<Rightarrow> link list \<Rightarrow> real \<Rightarrow> int \<Rightarrow> real \<Rightarrow> (link \<times> real) list option
     \<Rightarrow> py_error + (int \<times> real) list" where
  "calculate_standard nxpr pages links damping max_iter tolerance link_weights =
     (let page_ids = map page_id pages;
          edges = (if truthy link_weights \<noteq> []
                   then map (\<lambda>l. (l, Some (dict_get (truthy link_weights) l 1))) links
                   else map (\<lambda>l. (l, None)) links)
      in case nxpr page_ids edges damping max_iter tolerance of
           NxScores pagerank_scores \<Rightarrow> Inr pagerank_scores
         | NxNetworkXError \<Rightarrow>
             if length links = 0 then Inr (uniform_scores page_ids) else Inl ValueError
         | NxOtherException \<Rightarrow> Inl NetworkXException)"

text \<open>
  \<^verbatim>\<open>norm\<close> in \<^verbatim>\<open>_calculate_with_sparse_matrix\<close> is \<^verbatim>\<open>scipy.sparse.linalg.norm\<close>, which
  accepts sparse matrices only. Its argument \<^verbatim>\<open>v - v_old\<close> is a dense array, for which the
  library raises \<^verbatim>\<open>TypeError("input is not sparse. use numpy.linalg.norm")\<close>.
\<close>

definition sparse_linalg_norm :: "real list \<Rightarrow> py_error + real" where
  "sparse_linalg_norm x = Inl TypeError"

text \<open>The power iteration of \<^verbatim>\<open>_calculate_with_sparse_matrix\<close> (lines 163 to 179).\<close>

fun power_loop ::
  "real list list \<Rightarrow> real \<Rightarrow> real \<Rightarrow> real \<Rightarrow> nat \<Rightarrow> nat \<Rightarrow> real list \<Rightarrow> py_error + real list"
where
  "power_loop M damping teleport tolerance iteration 0 v = Inr v"
| "power_loop M damping teleport tolerance iteration (Suc remaining) v =
     (let v_old = v;
          v = map (\<lambda>x. damping * x + teleport) (dot M v)
      in if iteration mod 10 = 0
         then (case sparse_linalg_norm (map2 (-) v v_old) of
                 Inl e \<Rightarrow> Inl e
               | Inr diff \<Rightarrow>
                   if diff < tolerance then Inr v
                   else power_loop M damping teleport tolerance (Suc iteration) remaining v)
         else power_loop M damping teleport tolerance (Suc iteration) remaining v)"

text \<open>\<^verbatim>\<open>_calculate_with_sparse_matrix\<close>, with SciPy installed.\<close>

definition calculate_with_sparse_matrix ::
  "page list \<Rightarrow> link list \<Rightarrow> real \<Rightarrow> int \<Rightarrow> real \<Rightarrow> (link \<times> real) list option
     \<Rightarrow> py_error + (int \<times> real) list" where
  "calculate_with_sparse_matrix pages links damping max_iter tolerance link_weights =
     (let page_ids = map page_id pages;
          n = length page_ids;
          id_to_idx = id_to_idx_of page_ids;
          A = adjacency n id_to_idx link_weights links;
          M = column_stochastic A;
          v = replicate n (1 / real n)
      in if n = 0 then Inl ZeroDivisionError
         else (let teleport = (1 - damping) / real n
               in case power_loop M damping teleport tolerance 0 (nat max_iter) v of
                    Inl e \<Rightarrow> Inl e
                  | Inr v \<Rightarrow> Inr (scores_dict page_ids v)))"

text \<open>\<^verbatim>\<open>NetworkXPageRankCalculator.calculate\<close>\<close>

definition nx_calculate ::
  "nx_pagerank \<Rightarrow> page list \<Rightarrow> link list \<Rightarrow> real \<Rightarrow> int \<Rightarrow> real \<Rightarrow> (link \<times> real) list option
     \<Rightarrow> py_error + (int \<times> real) list" where
  "nx_calculate nxpr pages links damping max_iter tolerance link_weights =
     (let num_pages = int (length pages); num_links = int (length links)
      in if num_pages > 50000 \<or> num_links > 500000
         then calculate_with_sparse_matrix pages links damping max_iter tolerance link_weights
         else calculate_standard nxpr pages links damping max_iter tolerance link_weights)"

subsection \<open>\<^verbatim>\<open>AdvancedPageRankCalculator.calculate\<close>\<close>

record calculator =
  self_damping :: real
  self_tolerance :: real
  self_max_iter :: int
  performance_threshold :: real

text \<open>\<^verbatim>\<open>_estimate_computation_time\<close>\<close>

definition estimate_computation_time :: "calculator \<Rightarrow> nat \<Rightarrow> nat \<Rightarrow> real" where
  "estimate_computation_time self n_pages n_links =
     (let base_time = 1 / 10;
          page_factor = real n_pages * (1 / 100000);
          link_factor = real n_links * (1 / 1000000);
          iterations = min 100 (self_max_iter self)
      in base_time + (page_factor + link_factor) * real_of_int iterations)"

text \<open>\<^verbatim>\<open>x or default\<close> for an optional number: \<^verbatim>\<open>None\<close> and zero give the default.\<close>

definition or_default :: "'a::zero option \<Rightarrow> 'a \<Rightarrow> 'a" where
  "or_default x dflt = (case x of None \<Rightarrow> dflt | Some y \<Rightarrow> if y = 0 then dflt else y)"

text \<open>\<^verbatim>\<open>_calculate_baseline_pagerank\<close>: the baseline calculator with its default \<^verbatim>\<open>max_iter\<close>.\<close>

definition calculate_baseline_pagerank ::
  "calculator \<Rightarrow> nx_pagerank \<Rightarrow> page_data \<Rightarrow> link list \<Rightarrow> real \<Rightarrow> (link \<times> real) list option
     \<Rightarrow> py_error + (int \<times> real) list" where
  "calculate_baseline_pagerank self nxpr pd links damping link_weights =
     nx_calculate nxpr (pd_pages pd) links damping 100 (self_tolerance self) link_weights"

definition calculate ::
  "calculator \<Rightarrow> nx_pagerank \<Rightarrow> page list \<Rightarrow> link list \<Rightarrow> real option \<Rightarrow> int option
     \<Rightarrow> real option \<Rightarrow> (link \<times> real) list option \<Rightarrow> (string \<times> real) list option
     \<Rightarrow> (string \<times> real) list option \<Rightarrow> real \<Rightarrow> real \<Rightarrow> (string \<times> real) list option
     \<Rightarrow> py_error + (int \<times> real) list option" where
  "calculate self nxpr pages links damping_arg max_iter_arg tolerance_arg link_weights
     protected_pages boosted_pages eta_protect_arg eta_boost_arg alpha_cap =
     (let damping = or_default damping_arg (self_damping self);
          max_iter = or_default max_iter_arg (self_max_iter self);
          tolerance = or_default tolerance_arg (self_tolerance self);
          (eta_protect, eta_boost) =
            (if eta_protect_arg + eta_boost_arg > 1
             then (let eta_protect = min eta_protect_arg (4 / 10)
                   in (eta_protect, min eta_boost_arg (6 / 10 - eta_protect)))
             else (eta_protect_arg, eta_boost_arg));
          n_pages = length pages;
          n_links = length links;
          estimated_time = estimate_computation_time self n_pages n_links;
          use_fast_mode = (estimated_time > performance_threshold self);
          pd = prepare_page_data pages protected_pages boosted_pages alpha_cap
      in case calculate_baseline_pagerank self nxpr pd links damping link_weights of
           Inl e \<Rightarrow> Inl e
         | Inr baseline_pr \<Rightarrow>
             Inr (if use_fast_mode
                  then calculate_fast pd links baseline_pr damping eta_protect eta_boost
                         tolerance max_iter
                  else calculate_exact pd links baseline_pr damping eta_protect eta_boost
                         tolerance max_iter))"

subsection \<open>Example data for the solver\<close>

definition two_pages :: "page list" where
  "two_pages = [mk_page 1 ''home'' ''a'', mk_page 2 ''leaf'' ''a'']"

definition two_page_data :: page_data where
  "two_page_data = prepare_page_data two_pages None None None"


text \<open>A stand-in for the library in the examples: every node gets the same score.\<close>

definition uniform_nx :: nx_pagerank where
  "uniform_nx page_ids edges alpha max_iter tol = NxScores (uniform_scores page_ids)"

definition default_calculator :: calculator where
  "default_calculator =
     \<lparr>self_damping = 85 / 100, self_tolerance = 1 / 10 ^ 8, self_max_iter = 1000,
      performance_threshold = 15 * 60\<rparr>"

text \<open>A matrix with \<open>n\<close> rows of length \<open>n\<close>.\<close>

definition square :: "nat \<Rightarrow> real list list \<Rightarrow> bool" where
  "square n A \<longleftrightarrow> length A = n \<and> (\<forall>row \<in> set A. length row = n)"

subsection \<open>Predicates on vectors and matrices\<close>

text \<open>Entry-wise sign conditions used to state when the solver is well defined.\<close>

definition nonneg :: "real list \<Rightarrow> bool" where
  "nonneg xs \<longleftrightarrow> (\<forall>x \<in> set xs. 0 \<le> x)"



section \<open>Properties of the rule engine\<close>

subsection \<open>The double-precision product\<close>

declare bit_length.simps [simp del]

lemma bit_length_lower: "n \<noteq> 0 \<Longrightarrow> 2 ^ (bit_length n - 1) \<le> n"
proof (induction n rule: bit_length.induct)
  case (1 n)
  show ?case
  proof (cases "n div 2 = 0")
    case True
    with 1(2) have "n = 1" by (simp add: div_eq_0_iff) 
    moreover have "bit_length (Suc 0) = Suc 0"
      by (simp add: bit_length.simps [of "Suc 0"] bit_length.simps [of 0])
    ultimately show ?thesis by simp
  next
    case False
    with 1 have ih: "2 ^ (bit_length (n div 2) - 1) \<le> n div 2" by simp
    from False have pos: "0 < bit_length (n div 2)" by (simp add: bit_length.simps [of "n div 2"])
    have "bit_length n = Suc (bit_length (n div 2))" using 1(2) by (simp add: bit_length.simps [of n])
    then have "(2::nat) ^ (bit_length n - 1) = 2 * 2 ^ (bit_length (n div 2) - 1)"
      using pos by (cases "bit_length (n div 2)") simp_all
    also have "\<dots> \<le> 2 * (n div 2)" using ih by simp
    also have "\<dots> \<le> n" by simp
    finally show ?thesis .
  qed
qed

lemma round53_upper:
  assumes "round53 N = (q, s)"
  shows "2 ^ 53 * (q * 2 ^ s) \<le> (2 ^ 53 + 1) * N"
proof (cases "bit_length N \<le> 53")
  case True
  with assms show ?thesis by (simp add: round53_def)
next
  case False
  define b where "b = bit_length N"
  have b: "53 < b" using False by (simp add: b_def)
  have "bit_length 0 = 0" by (simp add: bit_length.simps [of 0])
  with b have N0: "N \<noteq> 0" unfolding b_def by (cases "N = 0") simp_all
  have s: "s = b - 53" using assms False by (simp add: round53_def Let_def b_def)
  have q: "q \<le> N div 2 ^ s + (if 2 ^ (s - 1) \<le> N mod 2 ^ s then 1 else 0)"
    using assms False by (auto simp: round53_def Let_def b_def s split: if_splits)
  have spos: "0 < s" using b s by simp
  have half: "(2::nat) ^ s = 2 * 2 ^ (s - 1)" using spos by (cases s) simp_all
  have val: "q * 2 ^ s \<le> N + 2 ^ (s - 1)"
  proof (cases "2 ^ (s - 1) \<le> N mod 2 ^ s")
    case True
    then have "q \<le> N div 2 ^ s + 1" using q by simp
    then have "q * 2 ^ s \<le> (N div 2 ^ s + 1) * 2 ^ s" by (rule mult_le_mono1)
    then have "q * 2 ^ s \<le> (N div 2 ^ s) * 2 ^ s + 2 ^ s" by (simp add: add_mult_distrib)
    also have "\<dots> = (N div 2 ^ s) * 2 ^ s + 2 ^ (s - 1) + 2 ^ (s - 1)" using half by simp
    also have "\<dots> \<le> (N div 2 ^ s) * 2 ^ s + N mod 2 ^ s + 2 ^ (s - 1)" using True by simp
    also have "\<dots> = N + 2 ^ (s - 1)" by (simp only: div_mult_mod_eq)
    finally show ?thesis .
  next
    case False
    then have "q \<le> N div 2 ^ s" using q by simp
    then have "q * 2 ^ s \<le> (N div 2 ^ s) * 2 ^ s" by (rule mult_le_mono1)
    also have "\<dots> \<le> N" by (rule div_times_less_eq_dividend)
    finally show ?thesis by simp
  qed
  have "2 ^ (b - 1) \<le> N" using bit_length_lower [OF N0] by (simp add: b_def)
  moreover have "b - 1 = 53 + (s - 1)" using b s by simp
  then have "(2::nat) ^ (b - 1) = 2 ^ 53 * 2 ^ (s - 1)"
    by (simp only: power_add)
  ultimately have key: "2 ^ 53 * 2 ^ (s - 1) \<le> N" by simp
  have "2 ^ 53 * (q * 2 ^ s) \<le> 2 ^ 53 * (N + 2 ^ (s - 1))"
    using val by (rule mult_le_mono2)
  also have "\<dots> = 2 ^ 53 * N + 2 ^ 53 * 2 ^ (s - 1)" by (rule add_mult_distrib2)
  also have "\<dots> \<le> 2 ^ 53 * N + N" using key by (rule add_left_mono)
  also have "\<dots> = (2 ^ 53 + 1) * N" by (simp add: add_mult_distrib)
  finally show ?thesis .
qed

lemma int_mul_0_7_bounds:
  assumes "0 \<le> m" "int_mul_0_7 m = Inr t"
  shows "0 \<le> t \<and> t \<le> m"
proof -
  obtain q s where f: "round53 (nat m) = (q, s)" by (cases "round53 (nat m)")
  obtain q2 s2 where p: "round53 (q * 6305039478318694) = (q2, s2)"
    by (cases "round53 (q * 6305039478318694)")
  have t: "t = int ((q2 * 2 ^ (s + s2)) div 2 ^ 53)"
    using assms f p by (auto simp: int_mul_0_7_def py_float_def Let_def split: if_splits)
  have 1: "2 ^ 53 * (q * 2 ^ s) \<le> (2 ^ 53 + 1) * nat m" by (rule round53_upper [OF f])
  have 2: "2 ^ 53 * (q2 * 2 ^ s2) \<le> (2 ^ 53 + 1) * (q * 6305039478318694)"
    by (rule round53_upper [OF p])
  have "2 ^ 53 * (2 ^ 53 * (q2 * 2 ^ (s + s2))) = 2 ^ 53 * 2 ^ s * (2 ^ 53 * (q2 * 2 ^ s2))"
    by (simp add: power_add algebra_simps)
  also have "\<dots> \<le> 2 ^ 53 * 2 ^ s * ((2 ^ 53 + 1) * (q * 6305039478318694))"
    using 2 by (rule mult_le_mono2)
  also have "\<dots> = (2 ^ 53 + 1) * 6305039478318694 * (2 ^ 53 * (q * 2 ^ s))"
    by (simp add: algebra_simps)
  also have "\<dots> \<le> (2 ^ 53 + 1) * 6305039478318694 * ((2 ^ 53 + 1) * nat m)"
    using 1 by (rule mult_le_mono2)
  also have "\<dots> = ((2 ^ 53 + 1) * 6305039478318694 * (2 ^ 53 + 1)) * nat m"
    by (simp add: algebra_simps)
  also have "\<dots> \<le> (2 ^ 53 * (2 ^ 53 * 2 ^ 53)) * nat m"
    by (rule mult_le_mono1) simp
  finally have "2 ^ 53 * (2 ^ 53 * (q2 * 2 ^ (s + s2))) \<le> 2 ^ 53 * (2 ^ 53 * (2 ^ 53 * nat m))"
    by (simp add: algebra_simps)
  then have "q2 * 2 ^ (s + s2) \<le> 2 ^ 53 * nat m" by simp
  then have "(q2 * 2 ^ (s + s2)) div 2 ^ 53 \<le> (2 ^ 53 * nat m) div 2 ^ 53"
    by (rule div_le_mono)
  then have "(q2 * 2 ^ (s + s2)) div 2 ^ 53 \<le> nat m" by simp
  then show ?thesis using t assms(1) by simp
qed

lemma int_mul_0_7_total:
  assumes "\<bar>m\<bar> < 2 ^ 1023"
  shows "\<exists>t. int_mul_0_7 m = Inr t"
proof -
  obtain q s where f: "round53 (nat \<bar>m\<bar>) = (q, s)" by (cases "round53 (nat \<bar>m\<bar>)")
  have "2 ^ 53 * (q * 2 ^ s) \<le> (2 ^ 53 + 1) * nat \<bar>m\<bar>" by (rule round53_upper [OF f])
  also have "\<dots> \<le> (2 ^ 53 * 2) * nat \<bar>m\<bar>" by (rule mult_le_mono1) simp
  finally have "q * 2 ^ s \<le> 2 * nat \<bar>m\<bar>" by simp
  moreover have "nat \<bar>m\<bar> < 2 ^ 1023" using assms by (simp add: nat_less_iff)
  ultimately have "q * 2 ^ s < 2 ^ 1024" by simp
  then show ?thesis using f by (simp add: int_mul_0_7_def py_float_def Let_def split: prod.splits)
qed

lemma int_mul_0_7_at_90: "int_mul_0_7 90 = Inr 62"
  by (simp add: int_mul_0_7_def py_float_def round53_def bit_length.simps)

subsection \<open>Duplicates, self links and the selector contract\<close>

lemma add_new_links_props:
  "add_new_links S xs = (added, S') \<Longrightarrow>
     distinct added \<and> set added \<inter> S = {} \<and> S' = S \<union> set added \<and> set added \<subseteq> set xs"
proof (induction xs arbitrary: S added S')
  case Nil
  then show ?case by simp
next
  case (Cons x xs)
  show ?case
  proof (cases "x \<in> S")
    case True
    with Cons.prems have "add_new_links S xs = (added, S')" by simp
    from Cons.IH [OF this] show ?thesis by auto
  next
    case False
    obtain a s where r: "add_new_links (insert x S) xs = (a, s)"
      by (cases "add_new_links (insert x S) xs")
    with False Cons.prems have eq: "added = x # a" "S' = s" by simp_all
    from Cons.IH [OF r] show ?thesis using eq False by auto
  qed
qed

lemma rules_loop_props:
  "rules_loop smp pages S g cfgs = Inr (ls, g') \<Longrightarrow> distinct ls \<and> set ls \<inter> S = {}"
proof (induction cfgs arbitrary: S g ls g')
  case Nil
  then show ?case by simp
next
  case (Cons cfg cfgs)
  from Cons.prems obtain rule_links g1 where
    a: "apply_single_rule smp g pages S cfg = Inr (rule_links, g1)"
    by (auto split: sum.splits)
  obtain added s where n: "add_new_links S rule_links = (added, s)"
    by (cases "add_new_links S rule_links")
  from Cons.prems a n obtain later where
    r: "rules_loop smp pages s g1 cfgs = Inr (later, g')" and ls: "ls = added @ later"
    by (auto split: sum.splits)
  from add_new_links_props [OF n]
  have p: "distinct added" "set added \<inter> S = {}" "s = S \<union> set added" by simp_all
  from Cons.IH [OF r] have q: "distinct later" "set later \<inter> s = {}" by simp_all
  show ?case using p q ls by auto
qed

lemma random_sample_subset:
  "sample_contract smp \<Longrightarrow> random_sample smp g xs k = Inr (ts, g') \<Longrightarrow>
     set ts \<subseteq> set xs \<and> int (length ts) = k"
  unfolding sample_contract_def random_sample_def
  by (auto split: if_splits) (metis fst_conv nat_le_iff subsetD, metis fst_conv nat_le_iff int_nat_eq)

lemma py_sorted_set: "set (py_sorted key r xs) = set xs"
  by (simp add: py_sorted_def)

lemma py_prefix_subset: "set (py_prefix k xs) \<subseteq> set xs"
  by (auto simp: py_prefix_def dest: in_set_takeD)

lemma optional_sample_subset:
  "sample_contract smp \<Longrightarrow>
   (if 0 < k then random_sample smp g xs k else Inr ([], g)) = Inr (ts, g') \<Longrightarrow>
   set ts \<subseteq> set xs"
  by (auto split: if_splits dest!: random_sample_subset)

lemma semantic_select_subset:
  assumes "sample_contract smp" "semantic_select smp g s c m = Inr (ts, g')"
  shows "set ts \<subseteq> set c"
proof -
  let ?same = "same_category_pages s c"
  let ?other = "other_pages s c"
  from assms(2) obtain sc oc where
    cnt: "semantic_counts (length ?same) (length ?other) m = Inr (sc, oc)"
    by (auto simp: semantic_select_def Let_def split: sum.splits)
  from assms(2) cnt obtain t1 g1 where
    s1: "(if 0 < sc then random_sample smp g ?same sc else Inr ([], g)) = Inr (t1, g1)"
    by (simp add: semantic_select_def Let_def split: sum.splits prod.splits)
  from assms(2) cnt s1 obtain t2 where
    s2: "(if 0 < oc then random_sample smp g1 ?other oc else Inr ([], g1)) = Inr (t2, g')"
    and ts: "ts = t1 @ t2"
    by (simp add: semantic_select_def Let_def split: sum.splits prod.splits)
  from optional_sample_subset [OF assms(1) s1] optional_sample_subset [OF assms(1) s2]
  show ?thesis using ts by (auto simp: same_category_pages_def other_pages_def)
qed

lemma select_targets_subset:
  assumes "sample_contract smp" "select_targets smp sel g s c m = Inr (ts, g')"
  shows "set ts \<subseteq> set c"
proof (cases sel)
  case CategorySelector
  with assms show ?thesis
    by (auto simp: category_select_def same_category_pages_def Let_def split: if_splits
        dest!: random_sample_subset)
next
  case SemanticSelector
  with assms show ?thesis by (simp add: semantic_select_subset)
next
  case RandomSelector
  with assms show ?thesis
    by (auto simp: random_select_def split: if_splits dest!: random_sample_subset)
next
  case (PageRankSelector h)
  with assms show ?thesis
    using py_prefix_subset [of m "py_sorted current_pagerank h c"]
    by (auto simp: pagerank_select_def Let_def py_sorted_set split: if_splits)
qed

lemma comprehension_kept:
  "comprehension test ps = Inr kept \<Longrightarrow>
     set kept \<subseteq> set ps \<and> (\<forall>p \<in> set kept. test p = Inr True)"
proof (induction ps arbitrary: kept)
  case Nil
  then show ?case by simp
next
  case (Cons p ps)
  from Cons.prems obtain keep rest where
    t: "test p = Inr keep" and r: "comprehension test ps = Inr rest"
    and k: "kept = (if keep then p # rest else rest)"
    by (auto split: sum.splits)
  from Cons.IH [OF r] show ?case using t k by auto
qed

lemma comprehension_total:
  "\<forall>p \<in> set ps. \<exists>b. test p = Inr b \<Longrightarrow>
     \<exists>kept. comprehension test ps = Inr kept \<and> set kept \<subseteq> set ps"
proof (induction ps)
  case Nil
  then show ?case by simp
next
  case (Cons p ps)
  from Cons.prems obtain b where t: "test p = Inr b" by auto
  from Cons.IH Cons.prems obtain rest where
    r: "comprehension test ps = Inr rest" "set rest \<subseteq> set ps" by auto
  show ?case using t r by auto
qed

lemma not_source_kept: "not_source sid p = Inr True \<Longrightarrow> page_id p \<noteq> sid"
  by (auto simp: not_source_def get_page_id_def split: if_splits)

lemma create_links_no_self:
  "create_links S b sid ts = Inr ls \<Longrightarrow> \<forall>p \<in> set ts. page_id p \<noteq> sid \<Longrightarrow>
     (x, x) \<notin> set ls"
proof (induction ts arbitrary: ls)
  case Nil
  then show ?case by simp
next
  case (Cons t ts)
  from Cons.prems(1) obtain later where
    i: "get_page_id t = Inr (page_id t)" and r: "create_links S b sid ts = Inr later"
    by (auto simp: get_page_id_def Let_def split: sum.splits if_splits)
  from Cons.IH [OF r] Cons.prems(2) have "(x, x) \<notin> set later" by simp
  moreover have "page_id t \<noteq> sid" using Cons.prems(2) by simp
  ultimately show ?case using Cons.prems(1) i r by (auto simp: Let_def)
qed

lemma source_loop_no_self:
  assumes "sample_contract smp" "avoid_self_links cfg"
  shows "source_loop smp sel cfg S tps g srcs = Inr (ls, g') \<Longrightarrow> (x, x) \<notin> set ls"
proof (induction srcs arbitrary: g ls g')
  case Nil
  then show ?case by simp
next
  case (Cons sp srcs)
  from Cons.prems obtain sid where sid: "get_page_id sp = Inr sid"
    by (auto split: sum.splits)
  from Cons.prems assms(2) sid obtain av where
    av: "comprehension (not_source sid) tps = Inr av"
    by (auto split: sum.splits)
  from Cons.prems assms(2) sid av obtain ts g1 where
    sel: "select_targets smp sel g sp av (links_per_page cfg) = Inr (ts, g1)"
    by (auto split: sum.splits)
  from Cons.prems assms(2) sid av sel obtain new_links where
    cr: "create_links S (bidirectional cfg) sid ts = Inr new_links"
    by (auto split: sum.splits)
  from Cons.prems assms(2) sid av sel cr obtain later where
    r: "source_loop smp sel cfg S tps g1 srcs = Inr (later, g')"
    and ls: "ls = new_links @ later"
    by (auto split: sum.splits)
  from comprehension_kept [OF av] have "\<forall>p \<in> set av. page_id p \<noteq> sid"
    by (auto dest: not_source_kept)
  with select_targets_subset [OF assms(1) sel] have "\<forall>p \<in> set ts. page_id p \<noteq> sid"
    by auto
  with cr have "(x, x) \<notin> set new_links" by (rule create_links_no_self)
  moreover have "(x, x) \<notin> set later" using Cons.IH [OF r] .
  ultimately show ?case using ls by simp
qed

lemma rules_loop_no_self:
  assumes "sample_contract smp"
  shows "\<forall>c \<in> set cfgs. avoid_self_links c \<Longrightarrow>
         rules_loop smp pages S g cfgs = Inr (ls, g') \<Longrightarrow> (x, x) \<notin> set ls"
proof (induction cfgs arbitrary: S g ls g')
  case Nil
  then show ?case by simp
next
  case (Cons cfg cfgs)
  from Cons.prems(2) obtain rule_links g1 where
    a: "apply_single_rule smp g pages S cfg = Inr (rule_links, g1)"
    by (auto split: sum.splits)
  obtain added s where n: "add_new_links S rule_links = (added, s)"
    by (cases "add_new_links S rule_links")
  from Cons.prems(2) a n obtain later where
    r: "rules_loop smp pages s g1 cfgs = Inr (later, g')" and ls: "ls = added @ later"
    by (auto split: sum.splits)
  have "avoid_self_links cfg" using Cons.prems(1) by simp
  from source_loop_no_self [OF assms this] a have "(x, x) \<notin> set rule_links"
    by (auto simp: apply_single_rule_def Let_def split: sum.splits)
  with add_new_links_props [OF n] have "(x, x) \<notin> set added" by auto
  moreover have "(x, x) \<notin> set later" using Cons.IH [OF _ r] Cons.prems(1) by simp
  ultimately show ?case using ls by simp
qed

lemma get_selector_unknown:
  "m \<notin> {''category'', ''semantic'', ''random'', ''pagerank_high'', ''pagerank_low''} \<Longrightarrow>
   get_selector m = CategorySelector"
  by (simp add: get_selector_def selectors_def)

lemma get_selector_category: "get_selector ''category'' = CategorySelector"
  by (simp add: get_selector_def selectors_def)

lemma take_sampler_contract: "sample_contract take_sampler"
  by (simp add: sample_contract_def take_sampler_def) (auto dest: in_set_takeD)

lemma category_select_total:
  "0 \<le> m \<Longrightarrow> \<exists>ts g'. category_select smp g s c m = Inr (ts, g')"
  by (cases "smp g (same_category_pages s c) (nat m)")
     (auto simp: category_select_def random_sample_def Let_def)

lemma create_links_total:
  "\<forall>p \<in> set ts. page_id p \<noteq> 0 \<Longrightarrow> \<exists>ls. create_links S b sid ts = Inr ls"
proof (induction ts)
  case Nil
  then show ?case by simp
next
  case (Cons t ts)
  then obtain later where "create_links S b sid ts = Inr later" by auto
  moreover have "get_page_id t = Inr (page_id t)" using Cons.prems by (simp add: get_page_id_def)
  ultimately show ?case by (simp add: Let_def)
qed

lemma available_targets_total:
  assumes "\<forall>p \<in> set tps. page_id p \<noteq> 0"
  shows "\<exists>av. (if avoid then comprehension (not_source sid) tps else Inr tps) = Inr av
              \<and> set av \<subseteq> set tps"
proof (cases avoid)
  case True
  have "\<forall>p \<in> set tps. \<exists>b. not_source sid p = Inr b"
    using assms by (simp add: not_source_def get_page_id_def)
  from comprehension_total [OF this] show ?thesis using True by simp
next
  case False
  then show ?thesis by simp
qed

text \<open>
  Where the category selector raises nothing, one selection takes pages of the candidate
  list: the whole same-category bucket, or a sample of it under the library's contract.
  Without that contract the sampled pages are arbitrary, so the loop is total for the
  selections whose pages have an id.
\<close>

lemma source_loop_category_total:
  assumes "0 \<le> links_per_page cfg" "sample_contract smp"
    and "\<forall>p \<in> set tps. page_id p \<noteq> 0"
  shows "\<forall>p \<in> set srcs. page_id p \<noteq> 0 \<Longrightarrow>
         \<exists>ls g'. source_loop smp CategorySelector cfg S tps g srcs = Inr (ls, g')"
proof (induction srcs arbitrary: g)
  case Nil
  then show ?case by simp
next
  case (Cons sp srcs)
  have sid: "get_page_id sp = Inr (page_id sp)" using Cons.prems by (simp add: get_page_id_def)
  from available_targets_total [OF assms(3), of "avoid_self_links cfg" "page_id sp"]
  obtain av where
    av: "(if avoid_self_links cfg then comprehension (not_source (page_id sp)) tps
          else Inr tps) = Inr av" "set av \<subseteq> set tps"
    by blast
  from category_select_total [OF assms(1), of smp g sp av] obtain ts g1 where
    sel: "category_select smp g sp av (links_per_page cfg) = Inr (ts, g1)" by blast
  have "select_targets smp CategorySelector g sp av (links_per_page cfg) = Inr (ts, g1)"
    using sel by simp
  from select_targets_subset [OF assms(2) this] av(2) assms(3)
  have "\<forall>p \<in> set ts. page_id p \<noteq> 0" by auto
  from create_links_total [OF this, of S "bidirectional cfg" "page_id sp"] obtain new_links
    where cr: "create_links S (bidirectional cfg) (page_id sp) ts = Inr new_links" by blast
  from Cons.IH [of g1] Cons.prems obtain later g2 where
    "source_loop smp CategorySelector cfg S tps g1 srcs = Inr (later, g2)" by auto
  then show ?case using sid av(1) sel cr by simp
qed

lemma filter_pages_total:
  assumes "types_filter \<noteq> [] \<longrightarrow> (\<forall>p \<in> set pages. page_type p \<noteq> [])"
    and "categories_filter \<noteq> [] \<longrightarrow> (\<forall>p \<in> set pages. category p \<noteq> [])"
  shows "\<exists>filtered. filter_pages_by_criteria pages types_filter categories_filter
                        = Inr filtered \<and> set filtered \<subseteq> set pages"
proof -
  have "\<exists>f1. (if types_filter \<noteq> [] then comprehension (type_matches types_filter) pages
               else Inr pages) = Inr f1 \<and> set f1 \<subseteq> set pages"
  proof (cases "types_filter = []")
    case True
    then show ?thesis by simp
  next
    case False
    with assms(1) have "\<forall>p \<in> set pages. \<exists>b. type_matches types_filter p = Inr b"
      by (simp add: type_matches_def get_page_type_def)
    from comprehension_total [OF this] show ?thesis using False by simp
  qed
  then obtain f1 where
    f1: "(if types_filter \<noteq> [] then comprehension (type_matches types_filter) pages
          else Inr pages) = Inr f1" "set f1 \<subseteq> set pages"
    by blast
  have "\<exists>f2. (if categories_filter \<noteq> []
               then comprehension (category_matches categories_filter) f1
               else Inr f1) = Inr f2 \<and> set f2 \<subseteq> set f1"
  proof (cases "categories_filter = []")
    case True
    then show ?thesis by simp
  next
    case False
    with assms(2) f1(2) have "\<forall>p \<in> set f1. \<exists>b. category_matches categories_filter p = Inr b"
      by (auto simp: category_matches_def get_page_category_def)
    from comprehension_total [OF this] show ?thesis using False by simp
  qed
  then obtain f2 where
    "(if categories_filter \<noteq> [] then comprehension (category_matches categories_filter) f1
      else Inr f1) = Inr f2" "set f2 \<subseteq> set f1"
    by blast
  then show ?thesis using f1 unfolding filter_pages_by_criteria_def by auto
qed

lemma rules_loop_cong:
  assumes "\<And>g S. apply_single_rule smp g pages S cfg = apply_single_rule smp g pages S cfg'"
  shows "rules_loop smp pages S g (before @ cfg # after) =
         rules_loop smp pages S g (before @ cfg' # after)"
proof (induction before arbitrary: S g)
  case Nil
  show ?case by (simp add: assms)
next
  case (Cons c before)
  show ?case by (simp add: Cons.IH cong: sum.case_cong split: sum.splits prod.splits)
qed

lemma optional_sample_exact:
  assumes "sample_contract smp" "0 \<le> k" "k \<le> int (length xs)"
  shows "\<exists>ts g'. (if 0 < k then random_sample smp g xs k else Inr ([], g)) = Inr (ts, g')
           \<and> int (length ts) = k \<and> set ts \<subseteq> set xs"
proof (cases "0 < k")
  case True
  obtain ts g' where r: "smp g xs (nat k) = (ts, g')" by (cases "smp g xs (nat k)")
  then have rs: "random_sample smp g xs k = Inr (ts, g')"
    using assms by (simp add: random_sample_def)
  from random_sample_subset [OF assms(1) rs] rs True show ?thesis by simp
next
  case False
  with assms show ?thesis by simp
qed

lemma semantic_counts_full:
  assumes "int_mul_0_7 m = Inr t" "0 \<le> m" "m \<le> int n_same" "m \<le> int n_other"
  shows "semantic_counts n_same n_other m = Inr (t, m - t)"
  using assms int_mul_0_7_bounds [OF assms(2) assms(1)]
  by (simp add: semantic_counts_def Let_def min_def)

lemma semantic_counts_3: "semantic_counts 3 3 3 = Inr (2, 1)"
  by (simp add: semantic_counts_def int_mul_0_7_def py_float_def round53_def bit_length.simps)

lemma mix_buckets:
  "same_category_pages mix_source mix_candidates =
     [mk_page 1 ''product'' ''a'', mk_page 2 ''product'' ''a'', mk_page 3 ''product'' ''a'']"
  "other_pages mix_source mix_candidates =
     [mk_page 4 ''product'' ''b'', mk_page 5 ''product'' ''b'', mk_page 6 ''product'' ''b'']"
  by (simp_all add: same_category_pages_def other_pages_def mix_source_def mix_candidates_def
      mk_page_def)

lemma mix_run:
  "semantic_select take_sampler () mix_source mix_candidates 3 =
     Inr ([mk_page 1 ''product'' ''a'', mk_page 2 ''product'' ''a'', mk_page 4 ''product'' ''b''], ())"
  using semantic_counts_3
  by (simp add: semantic_select_def mix_buckets take_sampler_def random_sample_def
      numeral_3_eq_3 Let_def)

subsection \<open>Claims about the rule engine\<close>

text \<open>
  C6. Whatever the pages, the existing edges and the ordered rule list, the edge list that
  \<^verbatim>\<open>MultiRule.generate_links\<close> returns has no duplicate directed edge and no edge of the
  existing list, also when several rules, or the bidirectional option of one rule, produce
  the same edge.
\<close>

theorem generate_links_duplicate_free:
  assumes "generate_links smp g rules_config pages existing_links = Inr (new_links, g')"
  shows "distinct new_links \<and> set new_links \<inter> set existing_links = {}"
  using rules_loop_props [of smp pages "set existing_links" g rules_config new_links g'] assms
  by (simp add: generate_links_def)

theorem generate_links_duplicate_free_witness:
  "generate_links take_sampler () [product_rule, category_rule] shop_pages [(4, 1)]
     = Inr ([(1, 2), (2, 1), (4, 2)], ())
   \<and> distinct ([(1, 2), (2, 1), (4, 2)] :: link list)
   \<and> set ([(1, 2), (2, 1), (4, 2)] :: link list) \<inter> set [(4, 1)] = {}"
proof -
  have h: "generate_links take_sampler () [product_rule, category_rule] shop_pages [(4, 1)]
     = Inr ([(1, 2), (2, 1), (4, 2)], ())"
    by code_simp
  show ?thesis using h generate_links_duplicate_free [OF h] by simp
qed

text \<open>
  C9. With \<^verbatim>\<open>avoid_self_links\<close> set, no edge from a page to itself is generated, neither
  by one rule application (forward and reverse edges alike) nor in the list the engine
  returns when every rule has the option set. The sampler is assumed to keep Python's
  contract for \<^verbatim>\<open>random.sample\<close>.
\<close>

theorem avoid_self_links_no_self_edge:
  assumes "sample_contract smp"
  shows "(avoid_self_links cfg \<longrightarrow>
            apply_single_rule smp g pages existing_links_set cfg = Inr (rule_links, g1) \<longrightarrow>
            (x, x) \<notin> set rule_links)
       \<and> ((\<forall>c \<in> set rules_config. avoid_self_links c) \<longrightarrow>
            generate_links smp g rules_config pages existing_links = Inr (new_links, g2) \<longrightarrow>
            (x, x) \<notin> set new_links)"
  using source_loop_no_self [OF assms, of cfg] rules_loop_no_self [OF assms, of rules_config]
  by (auto simp: apply_single_rule_def generate_links_def Let_def split: sum.splits)

theorem avoid_self_links_no_self_edge_witness:
  "sample_contract take_sampler
   \<and> avoid_self_links product_rule \<and> avoid_self_links category_rule
   \<and> apply_single_rule take_sampler () shop_pages {} product_rule
          = Inr ([(1, 2), (2, 1), (2, 1), (1, 2)], ())
   \<and> (2, 2) \<notin> set ([(1, 2), (2, 1), (2, 1), (1, 2)] :: link list)
   \<and> generate_links take_sampler () [product_rule, category_rule] shop_pages [(4, 1)]
          = Inr ([(1, 2), (2, 1), (4, 2)], ())
   \<and> (2, 2) \<notin> set ([(1, 2), (2, 1), (4, 2)] :: link list)"
proof -
  have a: "avoid_self_links product_rule" "avoid_self_links category_rule"
    by (simp_all add: product_rule_def category_rule_def default_rule_def)
  have b: "apply_single_rule take_sampler () shop_pages {} product_rule
          = Inr ([(1, 2), (2, 1), (2, 1), (1, 2)], ())"
    by code_simp
  have c: "generate_links take_sampler () [product_rule, category_rule] shop_pages [(4, 1)]
          = Inr ([(1, 2), (2, 1), (4, 2)], ())"
    by code_simp
  show ?thesis
    using a b c take_sampler_contract
      avoid_self_links_no_self_edge [OF take_sampler_contract, of product_rule "()" shop_pages
        "{}" "[(1, 2), (2, 1), (2, 1), (1, 2)]" "()" 2 "[product_rule, category_rule]"
        "[(4, 1)]" "[(1, 2), (2, 1), (4, 2)]" "()"]
    by simp
qed

text \<open>
  C8, as amended. A rule whose \<^verbatim>\<open>selection_method\<close> is none of the five known names
  behaves exactly as the same rule with the method \<^verbatim>\<open>category\<close>: one rule application and
  the whole engine run, wherever the rule stands in the list, have the same outcome, the
  same links or the same error. The rule application raises no error when
  \<^verbatim>\<open>links_per_page\<close> is not negative, every page has a non-zero id, every page has a type
  if the rule filters by type, and every page has a category if the rule filters by
  category (\<^verbatim>\<open>random.sample\<close> keeping its contract).
\<close>

theorem unknown_selection_method_falls_back:
  assumes "selection_method cfg \<notin>
             {''category'', ''semantic'', ''random'', ''pagerank_high'', ''pagerank_low''}"
  shows "apply_single_rule smp g pages existing_links_set cfg
           = apply_single_rule smp g pages existing_links_set
               (cfg\<lparr>selection_method := ''category''\<rparr>)
       \<and> generate_links smp g (before @ cfg # after) pages existing_links
           = generate_links smp g (before @ cfg\<lparr>selection_method := ''category''\<rparr> # after)
               pages existing_links
       \<and> (sample_contract smp \<longrightarrow> 0 \<le> links_per_page cfg \<longrightarrow>
            (\<forall>p \<in> set pages. page_id p \<noteq> 0) \<longrightarrow>
            (source_types cfg @ target_types cfg \<noteq> [] \<longrightarrow>
               (\<forall>p \<in> set pages. page_type p \<noteq> [])) \<longrightarrow>
            (source_categories cfg @ target_categories cfg \<noteq> [] \<longrightarrow>
               (\<forall>p \<in> set pages. category p \<noteq> [])) \<longrightarrow>
            (\<exists>rule_links g'.
               apply_single_rule smp g pages existing_links_set cfg = Inr (rule_links, g')))"
proof -
  let ?cfg' = "cfg\<lparr>selection_method := ''category''\<rparr>"
  have sel: "get_selector (selection_method cfg) = CategorySelector"
    using assms by (rule get_selector_unknown)
  have loop: "source_loop smp CategorySelector cfg S tps g0 srcs
                = source_loop smp CategorySelector ?cfg' S tps g0 srcs" for S tps g0 srcs
    by (induction srcs arbitrary: g0) (auto simp: Let_def split: sum.splits)
  have eq: "apply_single_rule smp g0 pages S cfg = apply_single_rule smp g0 pages S ?cfg'"
    for g0 S
    by (simp add: apply_single_rule_def Let_def sel get_selector_category loop
        split: sum.splits)
  have "generate_links smp g (before @ cfg # after) pages existing_links
           = generate_links smp g (before @ ?cfg' # after) pages existing_links"
    unfolding generate_links_def by (rule rules_loop_cong) (rule eq)
  moreover have "\<exists>rule_links g'.
               apply_single_rule smp g pages existing_links_set cfg = Inr (rule_links, g')"
    if c: "sample_contract smp" and l: "0 \<le> links_per_page cfg"
      and i: "\<forall>p \<in> set pages. page_id p \<noteq> 0"
      and t: "source_types cfg @ target_types cfg \<noteq> [] \<longrightarrow>
               (\<forall>p \<in> set pages. page_type p \<noteq> [])"
      and k: "source_categories cfg @ target_categories cfg \<noteq> [] \<longrightarrow>
               (\<forall>p \<in> set pages. category p \<noteq> [])"
  proof -
    from filter_pages_total [of "source_types cfg" pages "source_categories cfg"] t k
    obtain srcs where
      s: "filter_pages_by_criteria pages (source_types cfg) (source_categories cfg) = Inr srcs"
        "set srcs \<subseteq> set pages"
      by auto
    from filter_pages_total [of "target_types cfg" pages "target_categories cfg"] t k
    obtain tps where
      tp: "filter_pages_by_criteria pages (target_types cfg) (target_categories cfg) = Inr tps"
        "set tps \<subseteq> set pages"
      by auto
    have "\<forall>p \<in> set tps. page_id p \<noteq> 0" "\<forall>p \<in> set srcs. page_id p \<noteq> 0"
      using i s(2) tp(2) by auto
    from source_loop_category_total [OF l c this, of existing_links_set g]
    show ?thesis by (simp add: apply_single_rule_def Let_def sel s(1) tp(1))
  qed
  ultimately show ?thesis using eq by blast
qed

theorem unknown_selection_method_falls_back_witness:
  "selection_method typo_rule \<notin>
     {''category'', ''semantic'', ''random'', ''pagerank_high'', ''pagerank_low''}
   \<and> sample_contract take_sampler
   \<and> 0 \<le> links_per_page typo_rule
   \<and> apply_single_rule take_sampler () shop_pages {} typo_rule
       = apply_single_rule take_sampler () shop_pages {}
           (typo_rule\<lparr>selection_method := ''category''\<rparr>)
   \<and> generate_links take_sampler () ([category_rule] @ typo_rule # []) shop_pages [(4, 1)]
       = generate_links take_sampler ()
           ([category_rule] @ typo_rule\<lparr>selection_method := ''category''\<rparr> # [])
           shop_pages [(4, 1)]
   \<and> (\<exists>rule_links g'.
         apply_single_rule take_sampler () shop_pages {} typo_rule = Inr (rule_links, g'))
   \<and> apply_single_rule take_sampler () shop_pages {} typo_rule
       = Inr ([(1, 2), (2, 1), (2, 1), (1, 2)], ())"
proof -
  have h: "selection_method typo_rule \<notin>
     {''category'', ''semantic'', ''random'', ''pagerank_high'', ''pagerank_low''}"
    by (simp add: typo_rule_def product_rule_def default_rule_def)
  have l: "0 \<le> links_per_page typo_rule"
    by (simp add: typo_rule_def product_rule_def default_rule_def)
  have i: "\<forall>p \<in> set shop_pages. page_id p \<noteq> 0"
    "\<forall>p \<in> set shop_pages. page_type p \<noteq> []" "\<forall>p \<in> set shop_pages. category p \<noteq> []"
    by (simp_all add: shop_pages_def mk_page_def)
  have r: "apply_single_rule take_sampler () shop_pages {} typo_rule
       = Inr ([(1, 2), (2, 1), (2, 1), (1, 2)], ())"
    by code_simp
  show ?thesis
    using h l i r take_sampler_contract
      unknown_selection_method_falls_back [OF h, of take_sampler "()" shop_pages "{}"
        "[category_rule]" "[]" "[(4, 1)]"]
    by blast
qed

text \<open>
  C8 as stated fails for the same rule with \<^verbatim>\<open>links_per_page = -1\<close>, a value the request
  schema accepts: for the first product the category selector holds one candidate of its
  category, \<open>1 \<le> -1\<close> is false, and \<^verbatim>\<open>random.sample(same_category_pages, -1)\<close> raises
  \<^verbatim>\<open>ValueError\<close>. A page without a type fails in the type filter with \<^verbatim>\<open>AttributeError\<close>.
\<close>

theorem unknown_selection_method_counterexample:
  "selection_method negative_rule \<notin>
     {''category'', ''semantic'', ''random'', ''pagerank_high'', ''pagerank_low''}
   \<and> generate_links take_sampler () [negative_rule] shop_pages [] = Inl ValueError
   \<and> generate_links take_sampler () [typo_rule] (mk_page 5 [] ''electronics'' # shop_pages) []
       = Inl AttributeError"
proof -
  have "selection_method negative_rule \<notin>
     {''category'', ''semantic'', ''random'', ''pagerank_high'', ''pagerank_low''}"
    by (simp add: negative_rule_def typo_rule_def product_rule_def default_rule_def)
  moreover have "generate_links take_sampler () [negative_rule] shop_pages [] = Inl ValueError"
    by code_simp
  moreover have
    "generate_links take_sampler () [typo_rule] (mk_page 5 [] ''electronics'' # shop_pages) []
       = Inl AttributeError"
    by code_simp
  ultimately show ?thesis by (intro conjI)
qed

text \<open>
  C7, as amended. When \<open>0 \<le> m\<close> and both buckets hold at least \<open>m\<close> candidates, the
  relevance-mix selector takes \<open>t = int(m * 0.7)\<close> pages from the same-category bucket
  and the remaining \<open>m - t\<close> pages from the other bucket, so it returns exactly \<open>m\<close>
  pages.
\<close>

theorem relevance_mix_split:
  assumes "sample_contract smp" "0 \<le> m" "m < 2 ^ 1023"
    and "m \<le> int (length (same_category_pages source_page candidate_pages))"
    and "m \<le> int (length (other_pages source_page candidate_pages))"
  shows "\<exists>t targets1 targets2 g'.
           int_mul_0_7 m = Inr t \<and> 0 \<le> t \<and> t \<le> m
         \<and> semantic_select smp g source_page candidate_pages m = Inr (targets1 @ targets2, g')
         \<and> int (length targets1) = t
         \<and> set targets1 \<subseteq> set (same_category_pages source_page candidate_pages)
         \<and> int (length targets2) = m - t
         \<and> set targets2 \<subseteq> set (other_pages source_page candidate_pages)
         \<and> int (length (targets1 @ targets2)) = m"
proof -
  let ?same = "same_category_pages source_page candidate_pages"
  let ?others = "other_pages source_page candidate_pages"
  from assms(2,3) have "\<bar>m\<bar> < 2 ^ 1023" by simp
  from int_mul_0_7_total [OF this] obtain t where t: "int_mul_0_7 m = Inr t" by blast
  from int_mul_0_7_bounds [OF assms(2) t] have tb: "0 \<le> t" "t \<le> m" by simp_all
  have cnt: "semantic_counts (length ?same) (length ?others) m = Inr (t, m - t)"
    using t assms(2,4,5) by (rule semantic_counts_full)
  from optional_sample_exact [OF assms(1) tb(1), of ?same g] tb assms(4)
  obtain targets1 g1 where
    s1: "(if 0 < t then random_sample smp g ?same t else Inr ([], g)) = Inr (targets1, g1)"
    and l1: "int (length targets1) = t" "set targets1 \<subseteq> set ?same"
    by auto
  have "0 \<le> m - t" "m - t \<le> int (length ?others)" using tb assms(5) by simp_all
  from optional_sample_exact [OF assms(1) this, of g1]
  obtain targets2 g2 where
    s2: "(if 0 < m - t then random_sample smp g1 ?others (m - t) else Inr ([], g1))
           = Inr (targets2, g2)"
    and l2: "int (length targets2) = m - t" "set targets2 \<subseteq> set ?others"
    by auto
  have run: "semantic_select smp g source_page candidate_pages m = Inr (targets1 @ targets2, g2)"
    unfolding semantic_select_def Let_def cnt using s1 s2 by simp
  have len: "int (length (targets1 @ targets2)) = m" using l1(1) l2(1) by simp
  show ?thesis
    using t tb run l1 l2 len by (intro exI [of _ t] exI [of _ targets1] exI [of _ targets2]
        exI [of _ g2] conjI)
qed

theorem relevance_mix_split_witness:
  "sample_contract take_sampler \<and> (0::int) \<le> 3 \<and> (3::int) < 2 ^ 1023
   \<and> 3 \<le> int (length (same_category_pages mix_source mix_candidates))
   \<and> 3 \<le> int (length (other_pages mix_source mix_candidates))
   \<and> (\<exists>t targets1 targets2 g'.
           int_mul_0_7 3 = Inr t \<and> 0 \<le> t \<and> t \<le> 3
         \<and> semantic_select take_sampler () mix_source mix_candidates 3
              = Inr (targets1 @ targets2, g')
         \<and> int (length targets1) = t
         \<and> set targets1 \<subseteq> set (same_category_pages mix_source mix_candidates)
         \<and> int (length targets2) = 3 - t
         \<and> set targets2 \<subseteq> set (other_pages mix_source mix_candidates)
         \<and> int (length (targets1 @ targets2)) = 3)"
proof -
  have a: "(0::int) \<le> 3" "(3::int) < 2 ^ 1023" by simp_all
  have b: "3 \<le> int (length (same_category_pages mix_source mix_candidates))"
    "3 \<le> int (length (other_pages mix_source mix_candidates))"
    by (simp_all add: mix_buckets)
  show ?thesis
    using a b take_sampler_contract
      relevance_mix_split [OF take_sampler_contract a b, of "()"]
    by blast
qed

text \<open>
  C7 as stated fails for \<open>m = 3\<close> with three candidates in each bucket: the specification's
  split is 2 and 0, the selector returns 2 same-category pages and 1 other page, 3 pages
  in all.
\<close>

theorem relevance_mix_counterexample:
  "3 \<le> length (same_category_pages mix_source mix_candidates)
   \<and> 3 \<le> length (other_pages mix_source mix_candidates)
   \<and> semantic_select take_sampler () mix_source mix_candidates 3 =
       Inr ([mk_page 1 ''product'' ''a'', mk_page 2 ''product'' ''a'',
             mk_page 4 ''product'' ''b''], ())
   \<and> spec_mix_counts 3 = (2, 0)
   \<and> int (length (other_pages mix_source
        [mk_page 1 ''product'' ''a'', mk_page 2 ''product'' ''a'', mk_page 4 ''product'' ''b'']))
       \<noteq> snd (spec_mix_counts 3)
   \<and> \<not> int (length [mk_page 1 ''product'' ''a'', mk_page 2 ''product'' ''a'',
                      mk_page 4 ''product'' ''b''])
         \<le> fst (spec_mix_counts 3) + snd (spec_mix_counts 3)"
  by (simp add: mix_buckets mix_run spec_mix_counts_def)
     (simp add: other_pages_def mix_source_def mk_page_def)

section \<open>Properties of the water-filling projection\<close>

subsection \<open>The vector operations, entry by entry\<close>

lemma zip3_maps:
  assumes "length p = length fs" "length fs = length cs"
  shows "p = map fst (zip p (zip fs cs))
       \<and> fs = map (fst \<circ> snd) (zip p (zip fs cs))
       \<and> cs = map (snd \<circ> snd) (zip p (zip fs cs))"
  using assms by (induction p fs cs rule: list_induct3) simp_all

lemma map2_maps: "map2 f (map g es) (map h es) = map (\<lambda>e. f (g e) (h e)) es"
  by (induction es) simp_all

lemma mask_select_maps: "mask_select (map P es) (map g es) = map g (filter P es)"
  by (induction es) (simp_all add: mask_select_def)

lemma count_mask: "length (filter id (map P es)) = length (filter P es)"
  by (induction es) simp_all

lemma masked_add_maps:
  "masked_add (map P es) (map g es) (map h (filter P es))
     = map (\<lambda>e. if P e then g e + h e else g e) es"
  by (induction es) simp_all

lemma masked_add_replicate:
  "masked_add (map P es) (map g es) (replicate (length (filter P es)) v)
     = map (\<lambda>e. if P e then g e + v else g e) es"
  by (induction es) simp_all

lemma wf_capped_maps:
  "wf_capped (map fst es) (map (fst \<circ> snd) es) (map (snd \<circ> snd) es) = map clamp_entry es"
  by (simp add: wf_capped_def np_maximum_def np_minimum_def map2_maps clamp_entry_def
      case_prod_beta)

lemma can_adjust_maps:
  "can_adjust_mask (map clamp_entry es) (map (fst \<circ> snd) es) (map (snd \<circ> snd) es) = map entry_adjustable es"
  by (induction es) (auto simp: can_adjust_mask_def entry_adjustable_def)

lemma entry_adjustable_clamped: "entry_adjustable e = adjustable (clamped_entry e)"
  by (cases e) (simp add: entry_adjustable_def adjustable_def clamped_entry_def)

lemma wf_entries_maps:
  "wf_entries (map fst es) (map (fst \<circ> snd) es) (map (snd \<circ> snd) es) = map clamped_entry es"
  by (simp add: wf_entries_def wf_capped_maps) (induction es, simp_all add: clamped_entry_def)

lemma filter_adjustable_clamped: "filter adjustable (map clamped_entry es) = map clamped_entry (filter entry_adjustable es)"
  by (induction es) (simp_all add: entry_adjustable_clamped)

lemma those_map_Some:
  "those (map h zs) = Some caps \<Longrightarrow> caps = map (the \<circ> h) zs \<and> (\<forall>z \<in> set zs. h z \<noteq> None)"
  by (induction zs arbitrary: caps) (auto split: option.splits)

lemma those_map_None:
  "those (map h zs) = None \<Longrightarrow> \<exists>z \<in> set zs. h z = None"
  by (induction zs) (auto split: option.splits)

lemma remaining_capacity_those:
  "remaining_capacity (map clamped_entry es) = map_option sum_list (those (map entry_capacity (filter entry_adjustable es)))"
proof (induction es)
  case Nil
  then show ?case by simp
next
  case (Cons e es)
  obtain a f c where e: "e = (a, f, c)" by (cases e)
  have cle: "clamped_entry e = (clamp_entry e, f, c)" by (simp add: clamped_entry_def e)
  have cape: "entry_capacity e = map_option (\<lambda>u. u - clamp_entry e) c" by (simp add: entry_capacity_def e)
  show ?case
  proof (cases "entry_adjustable e")
    case True
    then have "adjustable (clamp_entry e, f, c)" using entry_adjustable_clamped [of e] by (simp add: cle)
    then show ?thesis using True Cons.IH
      by (cases c; cases "those (map entry_capacity (filter entry_adjustable es))") (simp_all add: cle cape)
  next
    case False
    then have "\<not> adjustable (clamp_entry e, f, c)" using entry_adjustable_clamped [of e] by (simp add: cle)
    then show ?thesis using False Cons.IH by (simp add: cle)
  qed
qed

lemma add_mass_adjustment_maps:
  "add_mass_adjustment (map clamp_entry es) (map (snd \<circ> snd) es) (map entry_adjustable es) d =
     (case those (map entry_capacity (filter entry_adjustable es)) of
        None \<Rightarrow> replicate (length (filter entry_adjustable es)) (d / real (length (filter entry_adjustable es)))
      | Some caps \<Rightarrow>
          if sum_list caps < d then map (\<lambda>c. c * (d / sum_list caps)) caps
          else replicate (length (filter entry_adjustable es)) (d / real (length (filter entry_adjustable es))))"
proof -
  have "map2 (\<lambda>c x. map_option (\<lambda>u. u - x) c)
          (mask_select (map entry_adjustable es) (map (snd \<circ> snd) es))
          (mask_select (map entry_adjustable es) (map clamp_entry es))
        = map entry_capacity (filter entry_adjustable es)"
    by (simp add: mask_select_maps map2_maps entry_capacity_def)
  then show ?thesis
    by (simp add: add_mass_adjustment_def count_mask Let_def split: option.splits)
qed

lemma even_fill_maps:
  "even_fill d (map clamped_entry es)
     = map (\<lambda>e. if entry_adjustable e then clamp_entry e + d / real (length (filter entry_adjustable es)) else clamp_entry e) es"
proof -
  have n: "length (filter adjustable (map clamped_entry es)) = length (filter entry_adjustable es)"
    by (simp add: filter_adjustable_clamped)
  show ?thesis unfolding even_fill_def n
    by (simp add: entry_adjustable_clamped case_prod_beta) (simp add: clamped_entry_def)
qed

lemma proportional_fill_maps:
  assumes "\<forall>e \<in> set (filter entry_adjustable es). entry_capacity e \<noteq> None"
  shows "proportional_fill d cap (map clamped_entry es)
     = map (\<lambda>e. if entry_adjustable e then clamp_entry e + the (entry_capacity e) * (d / cap) else clamp_entry e) es"
proof -
  have "(case clamped_entry e of (x, f, c) \<Rightarrow>
           case c of None \<Rightarrow> x
           | Some u \<Rightarrow> if adjustable (x, f, c) then x + (u - x) * (d / cap) else x)
        = (if entry_adjustable e then clamp_entry e + the (entry_capacity e) * (d / cap) else clamp_entry e)"
    if "e \<in> set es" for e
  proof (cases "snd (snd e)")
    case None
    then have "entry_capacity e = None" by (simp add: entry_capacity_def)
    moreover have "entry_adjustable e \<Longrightarrow> entry_capacity e \<noteq> None" using bspec [OF assms, of e] that by simp
    ultimately have "\<not> entry_adjustable e" by blast
    then show ?thesis using None by (simp add: clamped_entry_def)
  next
    case (Some u)
    then have "entry_capacity e = Some (u - clamp_entry e)" by (simp add: entry_capacity_def)
    moreover have "adjustable (clamp_entry e, fst (snd e), Some u) = entry_adjustable e"
      using entry_adjustable_clamped [of e] Some by (simp add: clamped_entry_def)
    ultimately show ?thesis using Some by (simp add: clamped_entry_def)
  qed
  then show ?thesis unfolding proportional_fill_def by (simp add: case_prod_beta)
qed

lemma wf_adjusted_add_maps:
  assumes "0 < 1 - sum_list (map clamp_entry es)"
  shows "wf_adjusted (map fst es) (map (fst \<circ> snd) es) (map (snd \<circ> snd) es) =
     (let d = 1 - sum_list (map clamp_entry es)
      in case remaining_capacity (map clamped_entry es) of
           None \<Rightarrow> even_fill d (map clamped_entry es)
         | Some cap \<Rightarrow>
             if cap < d then proportional_fill d cap (map clamped_entry es) else even_fill d (map clamped_entry es))"
proof -
  let ?d = "1 - sum_list (map clamp_entry es)"
  let ?n = "length (filter entry_adjustable es)"
  have adj: "wf_adjusted (map fst es) (map (fst \<circ> snd) es) (map (snd \<circ> snd) es) =
      masked_add (map entry_adjustable es) (map clamp_entry es)
        (add_mass_adjustment (map clamp_entry es) (map (snd \<circ> snd) es) (map entry_adjustable es) ?d)"
    using assms by (simp add: wf_adjusted_def wf_capped_maps can_adjust_maps Let_def)
  show ?thesis
  proof (cases "those (map entry_capacity (filter entry_adjustable es))")
    case None
    then have "remaining_capacity (map clamped_entry es) = None"
      by (simp add: remaining_capacity_those)
    then show ?thesis
      using None by (simp add: adj add_mass_adjustment_maps masked_add_replicate even_fill_maps)
  next
    case (Some caps)
    then have rc: "remaining_capacity (map clamped_entry es) = Some (sum_list caps)"
      by (simp add: remaining_capacity_those)
    from those_map_Some [OF Some] have caps: "caps = map (the \<circ> entry_capacity) (filter entry_adjustable es)"
      and fin: "\<forall>e \<in> set (filter entry_adjustable es). entry_capacity e \<noteq> None" by simp_all
    show ?thesis
    proof (cases "sum_list caps < ?d")
      case True
      have "map (\<lambda>c. c * (?d / sum_list caps)) caps
              = map (\<lambda>e. the (entry_capacity e) * (?d / sum_list caps)) (filter entry_adjustable es)"
        by (simp add: caps)
      then have "wf_adjusted (map fst es) (map (fst \<circ> snd) es) (map (snd \<circ> snd) es)
           = map (\<lambda>e. if entry_adjustable e then clamp_entry e + the (entry_capacity e) * (?d / sum_list caps)
                        else clamp_entry e) es"
        using Some True by (simp add: adj add_mass_adjustment_maps masked_add_maps)
      then show ?thesis
        using True rc by (simp add: proportional_fill_maps [OF fin])
    next
      case False
      then show ?thesis
        using Some rc
        by (simp add: adj add_mass_adjustment_maps masked_add_replicate even_fill_maps)
    qed
  qed
qed

lemma remove_mass_adjustment_maps:
  "remove_mass_adjustment (map clamp_entry es) (map (fst \<circ> snd) es) (map entry_adjustable es) d =
     (let caps = map (\<lambda>e. clamp_entry e - fst (snd e)) (filter entry_adjustable es)
      in if sum_list caps < - d then map (\<lambda>c. - c * (- d / sum_list caps)) caps
         else replicate (length (filter entry_adjustable es)) (d / real (length (filter entry_adjustable es))))"
  by (simp add: remove_mass_adjustment_def mask_select_maps map2_maps count_mask Let_def)

lemma sum_list_pos_nonempty:
  fixes xs :: "real list"
  shows "xs \<noteq> [] \<Longrightarrow> \<forall>x \<in> set xs. 0 < x \<Longrightarrow> 0 < sum_list xs"
  by (induction xs) (auto intro: add_pos_nonneg sum_list_nonneg less_imp_le)

lemma sum_list_pos_member:
  fixes xs :: "real list"
  shows "\<forall>x \<in> set xs. 0 \<le> x \<Longrightarrow> y \<in> set xs \<Longrightarrow> 0 < y \<Longrightarrow> 0 < sum_list xs"
  by (induction xs) (auto intro: add_pos_nonneg add_nonneg_pos sum_list_nonneg)

lemma sum_list_shares:
  "sum_list (map (\<lambda>e. if P e then g e + s e else g e) es)
     = sum_list (map g es) + sum_list (map s (filter P es))"
  for g s :: "'a \<Rightarrow> real"
  by (induction es) simp_all

lemma entry_adjustable_slack:
  assumes "entry_adjustable e"
  shows "fst (snd e) < clamp_entry e" and "\<And>u. snd (snd e) = Some u \<Longrightarrow> clamp_entry e < u"
  using assms by (cases e; simp add: entry_adjustable_def below_ceiling_def)+

lemma wf_adjusted_shares:
  assumes ne: "filter entry_adjustable es \<noteq> []" and d: "d = 1 - sum_list (map clamp_entry es)" and d0: "d \<noteq> 0"
  shows "\<exists>s. wf_adjusted (map fst es) (map (fst \<circ> snd) es) (map (snd \<circ> snd) es)
               = map (\<lambda>e. if entry_adjustable e then clamp_entry e + s e else clamp_entry e) es
           \<and> sum_list (map s (filter entry_adjustable es)) = d
           \<and> (\<forall>e \<in> set es. entry_adjustable e \<longrightarrow> (if 0 < d then 0 \<le> s e else s e \<le> 0))"
proof -
  let ?A = "filter entry_adjustable es"
  let ?n = "length ?A"
  let ?W = "wf_adjusted (map fst es) (map (fst \<circ> snd) es) (map (snd \<circ> snd) es)"
  have npos: "0 < real ?n" using ne by simp
  have even: "?W = masked_add (map entry_adjustable es) (map clamp_entry es) (replicate ?n (d / real ?n)) \<Longrightarrow>
        ?thesis"
  proof -
    assume w: "?W = masked_add (map entry_adjustable es) (map clamp_entry es) (replicate ?n (d / real ?n))"
    let ?s = "\<lambda>e :: entry. d / real ?n"
    have 1: "?W = map (\<lambda>e. if entry_adjustable e then clamp_entry e + ?s e else clamp_entry e) es"
      by (simp add: w masked_add_replicate)
    have 2: "sum_list (map ?s ?A) = d"
      using npos by (simp add: sum_list_replicate map_replicate_const)
    have 3: "\<forall>e \<in> set es. entry_adjustable e \<longrightarrow> (if 0 < d then 0 \<le> ?s e else ?s e \<le> 0)"
      using npos d0 by (auto simp: field_simps)
    show ?thesis using 1 2 3 by (intro exI [of _ ?s] conjI)
  qed
  show ?thesis
  proof (cases "0 < d")
    case True
    have adj: "?W = masked_add (map entry_adjustable es) (map clamp_entry es)
        (add_mass_adjustment (map clamp_entry es) (map (snd \<circ> snd) es) (map entry_adjustable es) d)"
      using True d by (simp add: wf_adjusted_def wf_capped_maps can_adjust_maps Let_def)
    show ?thesis
    proof (cases "those (map entry_capacity ?A)")
      case None
      then show ?thesis using adj by (intro even) (simp add: add_mass_adjustment_maps)
    next
      case (Some caps)
      from those_map_Some [OF Some] have caps: "caps = map (the \<circ> entry_capacity) ?A"
        and fin: "\<forall>e \<in> set ?A. entry_capacity e \<noteq> None" by simp_all
      show ?thesis
      proof (cases "sum_list caps < d")
        case False
        then show ?thesis using adj Some by (intro even) (simp add: add_mass_adjustment_maps)
      next
        case lt: True
        let ?cap = "sum_list caps"
        let ?s = "\<lambda>e. the (entry_capacity e) * (d / ?cap)"
        have pos: "0 < the (entry_capacity e)" if "e \<in> set ?A" for e
        proof -
          from bspec [OF fin that] obtain v where v: "entry_capacity e = Some v" by blast
          then obtain u where u: "snd (snd e) = Some u" "v = u - clamp_entry e"
            by (auto simp: entry_capacity_def)
          from that have "entry_adjustable e" by simp
          from entry_adjustable_slack(2) [OF this u(1)] show ?thesis using v u by simp
        qed
        have cpos: "0 < ?cap"
          unfolding caps using ne pos by (intro sum_list_pos_nonempty) auto
        have "map (\<lambda>c. c * (d / ?cap)) caps = map ?s ?A" by (simp add: caps)
        then have 1: "?W = map (\<lambda>e. if entry_adjustable e then clamp_entry e + ?s e else clamp_entry e) es"
          using Some lt by (simp add: adj add_mass_adjustment_maps masked_add_maps)
        have "sum_list (map ?s ?A) = sum_list (map (\<lambda>e. the (entry_capacity e)) ?A) * (d / ?cap)"
          by (rule sum_list_mult_const)
        moreover have "sum_list (map (\<lambda>e. the (entry_capacity e)) ?A) = ?cap"
          by (simp add: caps comp_def)
        ultimately have 2: "sum_list (map ?s ?A) = d" using cpos by simp
        have 3: "\<forall>e \<in> set es. entry_adjustable e \<longrightarrow> (if 0 < d then 0 \<le> ?s e else ?s e \<le> 0)"
          using pos cpos True by (auto intro!: mult_nonneg_nonneg less_imp_le)
        show ?thesis using 1 2 3 by (intro exI [of _ ?s] conjI)
      qed
    qed
  next
    case False
    then have neg: "d < 0" using d0 by simp
    let ?caps = "map (\<lambda>e. clamp_entry e - fst (snd e)) ?A"
    have adj: "?W = masked_add (map entry_adjustable es) (map clamp_entry es)
        (remove_mass_adjustment (map clamp_entry es) (map (fst \<circ> snd) es) (map entry_adjustable es) d)"
      using False d by (simp add: wf_adjusted_def wf_capped_maps can_adjust_maps Let_def)
    show ?thesis
    proof (cases "sum_list ?caps < - d")
      case F: False
      then show ?thesis using adj
        by (intro even) (simp add: remove_mass_adjustment_maps Let_def)
    next
      case lt: True
      let ?cap = "sum_list ?caps"
      let ?s = "\<lambda>e. - (clamp_entry e - fst (snd e)) * (- d / ?cap)"
      have pos: "0 < clamp_entry e - fst (snd e)" if "e \<in> set ?A" for e
        using that entry_adjustable_slack(1) [of e] by simp
      have cpos: "0 < ?cap" using ne pos by (intro sum_list_pos_nonempty) auto
      have r: "remove_mass_adjustment (map clamp_entry es) (map (fst \<circ> snd) es) (map entry_adjustable es) d
                 = map (\<lambda>c. - c * (- d / ?cap)) ?caps"
        using lt by (simp only: remove_mass_adjustment_maps Let_def if_True)
      have r2: "map (\<lambda>c. - c * (- d / ?cap)) ?caps = map ?s ?A"
        by (simp only: map_map comp_def)
      have 1: "?W = map (\<lambda>e. if entry_adjustable e then clamp_entry e + ?s e else clamp_entry e) es"
        by (simp only: adj r r2 masked_add_maps)
      have "sum_list (map ?s ?A)
              = sum_list (map (\<lambda>e. - (clamp_entry e - fst (snd e))) ?A) * (- d / ?cap)"
        by (rule sum_list_mult_const)
      moreover have "sum_list (map (\<lambda>e. - (clamp_entry e - fst (snd e))) ?A) = - ?cap"
        by (simp add: comp_def uminus_sum_list_map)
      ultimately have 2: "sum_list (map ?s ?A) = d" using cpos by simp
      have "?s e \<le> 0" if "e \<in> set es" "entry_adjustable e" for e
      proof -
        have "0 < clamp_entry e - fst (snd e)" using pos [of e] that by simp
        moreover have "0 < - d / ?cap" using neg cpos by (intro divide_pos_pos) simp_all
        ultimately have "0 < (clamp_entry e - fst (snd e)) * (- d / ?cap)" by (rule mult_pos_pos)
        then have "- ((clamp_entry e - fst (snd e)) * (- d / ?cap)) \<le> 0" by linarith
        then show ?thesis by (simp only: mult_minus_left)
      qed
      then have 3: "\<forall>e \<in> set es. entry_adjustable e \<longrightarrow> (if 0 < d then 0 \<le> ?s e else ?s e \<le> 0)"
        using neg by simp
      show ?thesis using 1 2 3 by (intro exI [of _ ?s] conjI)
    qed
  qed
qed

lemma np_clip_maps:
  "np_clip (map h es) (map (fst \<circ> snd) es) (map (snd \<circ> snd) es) = map (\<lambda>e. clip_entry (h e) e) es"
  by (simp add: np_clip_def np_maximum_def np_minimum_def map2_maps clip_entry_def)

lemma clip_entry_clamp: "clip_entry (clamp_entry e) e = clamp_entry e"
  by (cases e) (auto simp: clip_entry_def clamp_entry_def min_ceiling_def split: option.splits)

lemma clip_entry_up: "entry_adjustable e \<Longrightarrow> 0 \<le> s \<Longrightarrow> clamp_entry e \<le> clip_entry (clamp_entry e + s) e"
  using entry_adjustable_slack [of e]
  by (auto simp: clip_entry_def min_ceiling_def split: option.splits)

lemma clip_entry_down: "entry_adjustable e \<Longrightarrow> s \<le> 0 \<Longrightarrow> clamp_entry e + s \<le> clip_entry (clamp_entry e + s) e"
  using entry_adjustable_slack [of e]
  by (auto simp: clip_entry_def min_ceiling_def split: option.splits)

lemma mask_empty: "(filter id (map P es) = []) = (filter P es = [])"
  by (induction es) simp_all

lemma sum_list_divide:
  fixes xs :: "real list"
  shows "sum_list (map (\<lambda>x. x / d) xs) = sum_list xs / d"
  by (induction xs) (simp_all add: add_divide_distrib)

lemma clamp_entry_nonneg:
  assumes "0 \<le> fst (snd e)" "\<forall>u. snd (snd e) = Some u \<longrightarrow> 0 < u"
  shows "0 \<le> clamp_entry e" and "0 < fst e \<Longrightarrow> 0 < clamp_entry e"
  using assms by (cases e; auto simp: clamp_entry_def min_ceiling_def split: option.splits)+

lemma wf_sum_es:
  assumes fl: "\<forall>e \<in> set es. 0 \<le> fst (snd e)"
    and ce: "\<forall>e \<in> set es. \<forall>u. snd (snd e) = Some u \<longrightarrow> 0 < u"
    and po: "\<exists>e \<in> set es. 0 < fst e"
  shows "\<exists>out. water_filling_projection (map fst es) (map (fst \<circ> snd) es)
                  (Some (map (snd \<circ> snd) es)) = Some out
           \<and> \<bar>sum_list out - 1\<bar> < 1 / 10 ^ 10 \<and> length out = length es"
proof -
  let ?P = "water_filling_projection (map fst es) (map (fst \<circ> snd) es)
              (Some (map (snd \<circ> snd) es))"
  let ?S = "sum_list (map clamp_entry es)"
  let ?d = "1 - ?S"
  let ?W = "wf_adjusted (map fst es) (map (fst \<circ> snd) es) (map (snd \<circ> snd) es)"
  have nonneg: "\<forall>x \<in> set (map clamp_entry es). 0 \<le> x"
    using fl ce clamp_entry_nonneg(1) by auto
  from po obtain e0 where e0: "e0 \<in> set es" "0 < fst e0" by blast
  then have "0 < clamp_entry e0" using fl ce clamp_entry_nonneg(2) by blast
  with e0 have Spos: "0 < ?S"
    using nonneg by (intro sum_list_pos_member [of _ "clamp_entry e0"]) auto
  have ne: "es \<noteq> []" using e0 by auto
  show ?thesis
  proof (cases "\<bar>?d\<bar> < 1 / 10 ^ 10")
    case True
    then have "?P = Some (map clamp_entry es)"
      by (simp add: water_filling_projection_def wf_capped_maps Let_def)
    moreover have "\<bar>?S - 1\<bar> < 1 / 10 ^ 10" using True by (simp add: abs_minus_commute)
    ultimately show ?thesis by simp
  next
    case big: False
    then have d0: "?d \<noteq> 0" by auto
    show ?thesis
    proof (cases "filter entry_adjustable es = []")
      case True
      then have "?P = np_divide (map clamp_entry es) ?S"
        using big
        by (simp add: water_filling_projection_def wf_capped_maps can_adjust_maps mask_empty
            Let_def)
      then have "?P = Some (map (\<lambda>x. x / ?S) (map clamp_entry es))"
        using Spos by (simp add: np_divide_def)
      moreover have "sum_list (map (\<lambda>x. x / ?S) (map clamp_entry es)) = 1"
        using Spos by (simp only: sum_list_divide) simp
      ultimately show ?thesis by simp
    next
      case adjne: False
      from wf_adjusted_shares [OF adjne refl d0] obtain s where
        W: "?W = map (\<lambda>e. if entry_adjustable e then clamp_entry e + s e else clamp_entry e) es"
        and ssum: "sum_list (map s (filter entry_adjustable es)) = ?d"
        and sgn: "\<forall>e \<in> set es. entry_adjustable e \<longrightarrow> (if 0 < ?d then 0 \<le> s e else s e \<le> 0)"
        by blast
      let ?h = "\<lambda>e. if entry_adjustable e then clamp_entry e + s e else clamp_entry e"
      let ?F = "map (\<lambda>e. clip_entry (?h e) e) es"
      have F: "np_clip ?W (map (fst \<circ> snd) es) (map (snd \<circ> snd) es) = ?F"
        unfolding W by (rule np_clip_maps)
      have P: "?P = np_divide ?F (sum_list ?F)"
        using big adjne
        by (simp add: water_filling_projection_def wf_capped_maps can_adjust_maps mask_empty
            Let_def F)
      have Wsum: "sum_list (map ?h es) = 1"
        using ssum by (simp only: sum_list_shares)
      have Fpos: "0 < sum_list ?F"
      proof (cases "0 < ?d")
        case True
        have "clamp_entry e \<le> clip_entry (?h e) e" if "e \<in> set es" for e
          using that sgn True clip_entry_up [of e "s e"] by (auto simp: clip_entry_clamp)
        then have "sum_list (map clamp_entry es) \<le> sum_list ?F"
          by (intro sum_list_mono) simp
        with Spos show ?thesis by linarith
      next
        case False
        have "?h e \<le> clip_entry (?h e) e" if "e \<in> set es" for e
          using that sgn False clip_entry_down [of e "s e"] by (auto simp: clip_entry_clamp)
        then have "sum_list (map ?h es) \<le> sum_list ?F"
          by (intro sum_list_mono) simp
        with Wsum show ?thesis by linarith
      qed
      then have "?P = Some (map (\<lambda>x. x / sum_list ?F) ?F)"
        unfolding P by (simp add: np_divide_def)
      moreover have "sum_list (map (\<lambda>x. x / sum_list ?F) ?F) = 1"
        using Fpos by (simp only: sum_list_divide) simp
      ultimately show ?thesis by simp
    qed
  qed
qed

subsection \<open>Claims about the water-filling projection\<close>

lemmas wf_eval = water_filling_projection_def wf_adjusted_def wf_capped_def
  can_adjust_mask_def add_mass_adjustment_def remove_mass_adjustment_def np_clip_def
  np_minimum_def np_maximum_def min_ceiling_def below_ceiling_def np_divide_def
  mask_select_def wf_entries_def wf_deficit_def adjustable_def even_fill_def
  proportional_fill_def Let_def

lemma sum_list_pos_has_pos:
  fixes xs :: "real list"
  shows "0 < sum_list xs \<Longrightarrow> \<exists>x \<in> set xs. 0 < x"
proof (rule ccontr)
  assume "0 < sum_list xs" "\<not> (\<exists>x \<in> set xs. 0 < x)"
  then have "\<forall>x \<in> set xs. x \<le> 0" by auto
  then have "sum_list xs \<le> 0" by (intro sum_list_nonpos) auto
  with \<open>0 < sum_list xs\<close> show False by simp
qed

lemma wf_unit_test:
  "water_filling_projection [0.2, 0.3, 0.5] [0.4, 0.1, 0.2] (Some [None, None, None])
     = Some [0.4, 0.2, 0.4]"
  by (simp add: wf_eval)

text \<open>
  C3, as amended. When the deficit \<open>1 - sum(clamped)\<close> is positive, the projection adds
  the same amount \<open>deficit / n_adjustable\<close> to every adjustable entry, unless the total
  remaining capacity of the adjustable entries is finite and less than the deficit: then
  every adjustable entry receives \<open>(ceiling - value) * deficit / capacity\<close>, a share
  proportional to its remaining capacity. The other entries keep their clamped value.
\<close>

theorem water_filling_adds_mass:
  assumes "length p = length floors" "length floors = length ceilings"
    and "0 < wf_deficit p floors ceilings"
  shows "wf_adjusted p floors ceilings =
     (case remaining_capacity (wf_entries p floors ceilings) of
        None \<Rightarrow> even_fill (wf_deficit p floors ceilings) (wf_entries p floors ceilings)
      | Some cap \<Rightarrow>
          if cap < wf_deficit p floors ceilings
          then proportional_fill (wf_deficit p floors ceilings) cap
                 (wf_entries p floors ceilings)
          else even_fill (wf_deficit p floors ceilings) (wf_entries p floors ceilings))"
proof -
  define es where "es = zip p (zip floors ceilings)"
  from zip3_maps [OF assms(1,2)]
  have p: "p = map fst es" and f: "floors = map (fst \<circ> snd) es"
    and c: "ceilings = map (snd \<circ> snd) es"
    by (simp_all add: es_def)
  have d: "wf_deficit p floors ceilings = 1 - sum_list (map clamp_entry es)"
    unfolding wf_deficit_def by (subst p, subst f, subst c) (simp only: wf_capped_maps)
  have e: "wf_entries p floors ceilings = map clamped_entry es"
    by (subst p, subst f, subst c) (rule wf_entries_maps)
  have "wf_adjusted p floors ceilings
          = wf_adjusted (map fst es) (map (fst \<circ> snd) es) (map (snd \<circ> snd) es)"
    using p f c by simp
  also have "\<dots> = (let d = 1 - sum_list (map clamp_entry es)
      in case remaining_capacity (map clamped_entry es) of
           None \<Rightarrow> even_fill d (map clamped_entry es)
         | Some cap \<Rightarrow>
             if cap < d then proportional_fill d cap (map clamped_entry es) else even_fill d (map clamped_entry es))"
    using assms(3) unfolding d by (rule wf_adjusted_add_maps)
  finally show ?thesis unfolding d e by (simp add: Let_def)
qed

theorem water_filling_adds_mass_witness:
  "length [0.1, 0.2 :: real] = length [0, 0 :: real]
   \<and> length [0, 0 :: real] = length [Some 0.2, Some 0.5 :: ceiling]
   \<and> 0 < wf_deficit [0.1, 0.2] [0, 0] [Some 0.2, Some 0.5]
   \<and> remaining_capacity (wf_entries [0.1, 0.2] [0, 0] [Some 0.2, Some 0.5]) = Some (2 / 5)
   \<and> wf_deficit [0.1, 0.2] [0, 0] [Some 0.2, Some 0.5] = 7 / 10
   \<and> wf_adjusted [0.1, 0.2] [0, 0] [Some 0.2, Some 0.5]
       = proportional_fill (7 / 10) (2 / 5) (wf_entries [0.1, 0.2] [0, 0] [Some 0.2, Some 0.5])
   \<and> wf_adjusted [0.1, 0.2] [0, 0] [Some 0.2, Some 0.5] = [11 / 40, 29 / 40]"
proof -
  have a: "length [0.1, 0.2 :: real] = length [0, 0 :: real]"
    "length [0, 0 :: real] = length [Some 0.2, Some 0.5 :: ceiling]"
    by simp_all
  have d: "wf_deficit [0.1, 0.2] [0, 0] [Some 0.2, Some 0.5] = 7 / 10"
    by (simp add: wf_eval)
  then have b: "0 < wf_deficit [0.1, 0.2] [0, 0] [Some 0.2, Some 0.5]" by simp
  have r: "remaining_capacity (wf_entries [0.1, 0.2] [0, 0] [Some 0.2, Some 0.5]) = Some (2 / 5)"
    by (simp add: wf_eval)
  have v: "proportional_fill (7 / 10) (2 / 5) (wf_entries [0.1, 0.2] [0, 0] [Some 0.2, Some 0.5])
             = [11 / 40, 29 / 40]"
    by (simp add: wf_eval)
  have e: "wf_adjusted [0.1, 0.2] [0, 0] [Some 0.2, Some 0.5]
       = proportional_fill (7 / 10) (2 / 5) (wf_entries [0.1, 0.2] [0, 0] [Some 0.2, Some 0.5])"
    using water_filling_adds_mass [OF a b] unfolding r d by simp
  have w: "wf_adjusted [0.1, 0.2] [0, 0] [Some 0.2, Some 0.5] = [11 / 40, 29 / 40]"
    using e v by (rule trans)
  show ?thesis
    using a b d r e w by (intro conjI)
qed

text \<open>
  C3 as stated has the two cases the other way round. For the clamped vector
  \<open>[0.1, 0.2]\<close> with ceilings \<open>[0.5, 1]\<close> the deficit is 0.7 and the total capacity
  1.2 is not less: the claim asks for shares proportional to 0.4 and 0.8, the source adds
  0.35 to both entries.
\<close>

theorem water_filling_adds_mass_counterexample:
  "0 < wf_deficit [0.1, 0.2] [0, 0] [Some 0.5, Some 1]
   \<and> wf_deficit [0.1, 0.2] [0, 0] [Some 0.5, Some 1] = 7 / 10
   \<and> remaining_capacity (wf_entries [0.1, 0.2] [0, 0] [Some 0.5, Some 1]) = Some (6 / 5)
   \<and> \<not> (6 / 5 :: real) < 7 / 10
   \<and> wf_adjusted [0.1, 0.2] [0, 0] [Some 0.5, Some 1] = [9 / 20, 11 / 20]
   \<and> proportional_fill (7 / 10) (6 / 5) (wf_entries [0.1, 0.2] [0, 0] [Some 0.5, Some 1])
       = [1 / 3, 2 / 3]
   \<and> wf_adjusted [0.1, 0.2] [0, 0] [Some 0.5, Some 1]
       \<noteq> proportional_fill (7 / 10) (6 / 5) (wf_entries [0.1, 0.2] [0, 0] [Some 0.5, Some 1])"
  by (simp add: wf_eval)

text \<open>
  What the projection does guarantee. For an input that sums to 1, non-negative floors
  and positive ceilings (finite or not) it returns a vector of the same length whose
  entries sum to 1 within \<open>1e-10\<close>; and when the clamped input already sums to 1 within
  \<open>1e-10\<close> it is returned as it is, every entry between its floor and its ceiling.
\<close>

lemma water_filling_projection_sum:
  assumes "length p = length floors" "length floors = length ceilings"
    and "sum_list p = 1"
    and "\<forall>f \<in> set floors. 0 \<le> f"
    and "\<forall>c \<in> set ceilings. \<forall>u. c = Some u \<longrightarrow> 0 < u"
  shows "\<exists>out. water_filling_projection p floors (Some ceilings) = Some out
           \<and> length out = length p
           \<and> \<bar>sum_list out - 1\<bar> < 1 / 10 ^ 10
           \<and> (\<bar>wf_deficit p floors ceilings\<bar> < 1 / 10 ^ 10
                \<and> (\<forall>i < length p. \<forall>u. ceilings ! i = Some u \<longrightarrow> floors ! i \<le> u)
               \<longrightarrow> (\<forall>i < length p. floors ! i \<le> out ! i
                      \<and> (\<forall>u. ceilings ! i = Some u \<longrightarrow> out ! i \<le> u)))"
proof -
  define es where "es = zip p (zip floors ceilings)"
  from zip3_maps [OF assms(1,2)]
  have p: "p = map fst es" and f: "floors = map (fst \<circ> snd) es"
    and c: "ceilings = map (snd \<circ> snd) es"
    by (simp_all add: es_def)
  have len: "length es = length p" using assms(1,2) by (simp add: es_def)
  have nth: "es ! i = (p ! i, floors ! i, ceilings ! i)" if "i < length p" for i
    using that assms(1,2) by (simp add: es_def)
  have fl: "\<forall>e \<in> set es. 0 \<le> fst (snd e)"
    using assms(4) by (subst (asm) f) simp
  have ce: "\<forall>e \<in> set es. \<forall>u. snd (snd e) = Some u \<longrightarrow> 0 < u"
    using assms(5) by (subst (asm) c) simp
  have "0 < sum_list p" using assms(3) by simp
  from sum_list_pos_has_pos [OF this] have po: "\<exists>e \<in> set es. 0 < fst e"
    by (subst (asm) p) simp
  from wf_sum_es [OF fl ce po] obtain out where
    out: "water_filling_projection (map fst es) (map (fst \<circ> snd) es)
            (Some (map (snd \<circ> snd) es)) = Some out"
    and sum: "\<bar>sum_list out - 1\<bar> < 1 / 10 ^ 10" and lo: "length out = length es"
    by blast
  have run: "water_filling_projection p floors (Some ceilings) = Some out"
    using out p f c by simp
  have bounds: "floors ! i \<le> out ! i \<and> (\<forall>u. ceilings ! i = Some u \<longrightarrow> out ! i \<le> u)"
    if small: "\<bar>wf_deficit p floors ceilings\<bar> < 1 / 10 ^ 10"
      and le: "\<forall>i < length p. \<forall>u. ceilings ! i = Some u \<longrightarrow> floors ! i \<le> u"
      and i: "i < length p" for i
  proof -
    have "water_filling_projection p floors (Some ceilings) = Some (wf_capped p floors ceilings)"
      using small by (simp add: water_filling_projection_def wf_deficit_def Let_def)
    with run have "out = wf_capped p floors ceilings" by simp
    also have "\<dots> = map clamp_entry es"
      by (subst p, subst f, subst c) (rule wf_capped_maps)
    finally have "out ! i = clamp_entry (p ! i, floors ! i, ceilings ! i)"
      using i len nth by simp
    then show ?thesis using le i
      by (auto simp: clamp_entry_def min_ceiling_def split: option.splits)
  qed
  show ?thesis
    using run sum lo len bounds by (intro exI [of _ out]) auto
qed

text \<open>
  Where no entry is adjustable the clamped vector is rescaled, the fallback that the
  source logs as a warning: \<open>[0.5, 0.5]\<close> with ceilings \<open>[0.3, 0.3]\<close>, under which no
  vector sums to 1, is clamped to \<open>[0.3, 0.3]\<close> and rescaled back to \<open>[0.5, 0.5]\<close>.
\<close>

lemma all_saturated_rescaled:
  "water_filling_projection [0.5, 0.5] [0, 0] (Some [Some 0.3, Some 0.3]) = Some [0.5, 0.5]"
  by (simp add: wf_eval)

text \<open>
  C2. The projection does not keep the bounds that the claim states. On inputs that sum
  to 1, with floors that sum to at most 1 and finite ceilings above the floors that leave
  room for a vector summing to 1, it returns entries below their floors or above their
  ceilings, against the docstring of \<^verbatim>\<open>_water_filling_projection\<close> (\<^verbatim>\<open>Returns: Projected vector
  satisfying constraints\<close>) and the assertion \<^verbatim>\<open>projected >= floors - 1e-10\<close> of
  \<^verbatim>\<open>test_advanced_pagerank.py\<close>. The redistribution is followed by a clip and by a division
  by the sum (lines 267 and 268), and the division moves the clipped entries again.

  \<^item> \<open>[0.1, 0.31, 0.59]\<close> with floors \<open>[0.5, 0.3, 0]\<close> and ceilings \<open>[1, 1, 1]\<close>: the clamped
    vector \<open>[0.5, 0.31, 0.59]\<close> sums to 1.4; the two adjustable entries can give up 0.6,
    which is not less than 0.4, so 0.2 is taken from each; the clip gives
    \<open>[0.5, 0.3, 0.39]\<close> and the division by 1.19 leaves the first two entries below their
    floors.
  \<^item> \<open>[0.8, 0.1, 0.1]\<close> with floors \<open>[0, 0, 0]\<close> and ceilings \<open>[0.5, 0.2, 1]\<close>: the clamped
    vector \<open>[0.5, 0.1, 0.1]\<close> sums to 0.7; the two adjustable entries have capacity 1,
    which is not less than 0.3, so 0.15 is added to each; the clip gives
    \<open>[0.5, 0.2, 0.25]\<close> and the division by 0.95 leaves the first two entries above their
    ceilings.
\<close>

theorem water_filling_bounds_lost:
  "sum_list [0.1, 0.31, 0.59 :: real] = 1 \<and> sum_list [0.5, 0.3, 0 :: real] \<le> 1
   \<and> water_filling_projection [0.1, 0.31, 0.59] [0.5, 0.3, 0] (Some [Some 1, Some 1, Some 1])
       = Some [50 / 119, 30 / 119, 39 / 119]
   \<and> (50 / 119 :: real) < 0.5 \<and> (30 / 119 :: real) < 0.3
   \<and> sum_list [0.8, 0.1, 0.1 :: real] = 1 \<and> (1 :: real) \<le> sum_list [0.5, 0.2, 1]
   \<and> water_filling_projection [0.8, 0.1, 0.1] [0, 0, 0] (Some [Some 0.5, Some 0.2, Some 1])
       = Some [10 / 19, 4 / 19, 5 / 19]
   \<and> (0.5 :: real) < 10 / 19 \<and> (0.2 :: real) < 4 / 19"
  by (simp add: wf_eval)

section \<open>Properties of the solver\<close>

subsection \<open>The transition matrix\<close>

lemma square_update:
  "square n A \<Longrightarrow> length row = n \<Longrightarrow> square n (A[i := row])"
  by (auto simp: square_def dest!: set_update_subset_insert [THEN subsetD])

lemma square_nth: "square n A \<Longrightarrow> i < n \<Longrightarrow> length (A ! i) = n"
  by (simp add: square_def)

lemma square_adjacency: "square n (adjacency n id_to_idx lw links)"
proof -
  have "square n (fold (\<lambda>(from_id, to_id) A.
             case (map_of id_to_idx from_id, map_of id_to_idx to_id) of
               (Some from_idx, Some to_idx) \<Rightarrow>
                 A[from_idx := (A ! from_idx)
                     [to_idx := A ! from_idx ! to_idx + link_weight lw (from_id, to_id)]]
             | _ \<Rightarrow> A) links A0)" if "square n A0" for A0
    using that
  proof (induction links arbitrary: A0)
    case Nil
    then show ?case by simp
  next
    case (Cons l links)
    obtain a b where l: "l = (a, b)" by (cases l)
    show ?case
    proof (cases "map_of id_to_idx a")
      case None
      then show ?thesis using Cons by (simp add: l)
    next
      case (Some i)
      show ?thesis
      proof (cases "map_of id_to_idx b")
        case None
        then show ?thesis using Cons Some by (simp add: l)
      next
        case (Some j)
        show ?thesis
        proof (cases "i < n")
          case True
          then have "square n (A0[i := (A0 ! i)[j := A0 ! i ! j + link_weight lw (a, b)]])"
            using Cons.prems by (intro square_update) (simp_all add: square_nth)
          then show ?thesis using Cons.IH \<open>map_of id_to_idx a = Some i\<close> Some
            by (simp add: l)
        next
          case False
          then have "A0[i := (A0 ! i)[j := A0 ! i ! j + link_weight lw (a, b)]] = A0"
            using Cons.prems by (simp add: square_def list_update_beyond)
          then show ?thesis using Cons \<open>map_of id_to_idx a = Some i\<close> Some
            by (simp add: l)
        qed
      qed
    qed
  qed
  moreover have "square n (replicate n (replicate n 0))" by (simp add: square_def)
  ultimately show ?thesis unfolding adjacency_def by blast
qed

lemma square_apply_cap: "square n A \<Longrightarrow> square n (apply_cap id_to_idx item A)"
proof -
  assume sq: "square n A"
  obtain pid c where item: "item = (pid, c)" by (cases item)
  show ?thesis
  proof (cases "map_of id_to_idx pid")
    case None
    then show ?thesis using sq by (simp add: apply_cap_def item)
  next
    case (Some idx)
    show ?thesis
    proof (cases "idx < n")
      case True
      then show ?thesis using sq Some
        by (auto simp: apply_cap_def item Let_def square_nth intro!: square_update)
    next
      case False
      then show ?thesis using sq Some
        by (simp add: apply_cap_def item Let_def square_def list_update_beyond)
    qed
  qed
qed

lemma square_fold_caps:
  "square n A \<Longrightarrow> square n (fold (apply_cap id_to_idx) caps A)"
  by (induction caps arbitrary: A) (simp_all add: square_apply_cap)

lemma square_weighted_adjacency:
  "square (length (pd_pages pd)) (weighted_adjacency pd links lw ac)"
  by (simp add: weighted_adjacency_def Let_def square_adjacency square_fold_caps)

lemma column_of_column_stochastic:
  assumes "i < length A"
  shows "matrix_column (column_stochastic A) i =
           map (\<lambda>j. A ! i ! j * (1 / (if sum_list (A ! i) = 0 then 1 else sum_list (A ! i))))
             [0..<length A]"
  using assms by (simp add: matrix_column_def column_stochastic_def Let_def)

lemma sum_list_nth_upt: "sum_list (map (\<lambda>j. xs ! j) [0..<length xs]) = sum_list xs"
  by (simp add: map_nth)

lemma column_stochastic_sum:
  assumes "i < length A" "length (A ! i) = length A"
  shows "sum_list (matrix_column (column_stochastic A) i)
           = (if sum_list (A ! i) = 0 then 0 else 1)"
proof -
  let ?o = "if sum_list (A ! i) = 0 then 1 else sum_list (A ! i)"
  have "sum_list (matrix_column (column_stochastic A) i)
          = sum_list (map (\<lambda>j. A ! i ! j * (1 / ?o)) [0..<length (A ! i)])"
    using assms by (simp only: column_of_column_stochastic)
  also have "\<dots> = sum_list (map (\<lambda>j. A ! i ! j) [0..<length (A ! i)]) * (1 / ?o)"
    by (rule sum_list_mult_const)
  also have "\<dots> = sum_list (A ! i) * (1 / ?o)" by (simp only: sum_list_nth_upt)
  finally show ?thesis by simp
qed

lemma two_page_matrix:
  "build_transition_matrix two_page_data [(1, 2)] None True
     = ([[0, 0], [1, 0]], [(1, 0), (2, 1)])"
  by code_simp

text \<open>
  C4. What the source builds: the column of page \<open>i\<close> in the matrix of
  \<^verbatim>\<open>_build_transition_matrix\<close> sums to 1 when the out-weight of the page (the sum of row
  \<open>i\<close> of the adjacency matrix, caps applied) is not zero, and to 0 when it is zero; with
  non-negative weights the column of such a dangling page is the zero vector, not the
  uniform vector \<open>1/n\<close> of the claim.
\<close>

theorem transition_column_sum:
  assumes "i < length (pd_pages pd)"
  shows "sum_list (matrix_column (fst (build_transition_matrix pd links link_weights caps)) i)
           = (if sum_list (weighted_adjacency pd links link_weights caps ! i) = 0 then 0 else 1)
       \<and> (sum_list (weighted_adjacency pd links link_weights caps ! i) = 0 \<longrightarrow>
            (\<forall>w \<in> set (weighted_adjacency pd links link_weights caps ! i). 0 \<le> w) \<longrightarrow>
            matrix_column (fst (build_transition_matrix pd links link_weights caps)) i
              = replicate (length (pd_pages pd)) 0)"
proof -
  let ?A = "weighted_adjacency pd links link_weights caps"
  let ?n = "length (pd_pages pd)"
  have sq: "square ?n ?A" by (rule square_weighted_adjacency)
  then have len: "length ?A = ?n" "length (?A ! i) = ?n"
    using assms by (simp_all add: square_def)
  have M: "fst (build_transition_matrix pd links link_weights caps) = column_stochastic ?A"
    by (simp add: build_transition_matrix_def Let_def)
  have 1: "sum_list (matrix_column (column_stochastic ?A) i)
             = (if sum_list (?A ! i) = 0 then 0 else 1)"
    using assms len by (intro column_stochastic_sum) simp_all
  have 2: "matrix_column (column_stochastic ?A) i = replicate ?n 0"
    if z: "sum_list (?A ! i) = 0" and nn: "\<forall>w \<in> set (?A ! i). 0 \<le> w"
  proof -
    from nn z have "\<forall>w \<in> set (?A ! i). w = 0"
      by (simp add: sum_list_nonneg_eq_0_iff)
    then have "?A ! i ! j = 0" if "j < ?n" for j using that len by simp
    then have "map (\<lambda>j. ?A ! i ! j * (1 / (if sum_list (?A ! i) = 0 then 1 else sum_list (?A ! i))))
                 [0..<?n] = map (\<lambda>j. 0) [0..<?n]"
      by (intro map_cong) simp_all
    then show ?thesis
      using assms len by (simp only: column_of_column_stochastic) (simp add: map_replicate_const)
  qed
  show ?thesis unfolding M using 1 2 by blast
qed

theorem transition_column_sum_witness:
  "1 < length (pd_pages two_page_data)
   \<and> sum_list (weighted_adjacency two_page_data [(1, 2)] None True ! 1) = 0
   \<and> sum_list (matrix_column (fst (build_transition_matrix two_page_data [(1, 2)] None True)) 1)
       = 0
   \<and> matrix_column (fst (build_transition_matrix two_page_data [(1, 2)] None True)) 1 = [0, 0]
   \<and> [0, 0] \<noteq> [1 / 2, 1 / 2 :: real]"
proof -
  have h: "1 < length (pd_pages two_page_data)" by code_simp
  have z: "sum_list (weighted_adjacency two_page_data [(1, 2)] None True ! 1) = 0"
    by code_simp
  have c: "matrix_column (fst (build_transition_matrix two_page_data [(1, 2)] None True)) 1
             = [0, 0]"
    by (simp add: two_page_matrix matrix_column_def)
  show ?thesis
    using h z c transition_column_sum [OF h, of "[(1, 2)]" None True] by simp
qed

subsection \<open>The exact branch\<close>

text \<open>
  C5. \<^verbatim>\<open>_calculate_exact\<close> returns what \<^verbatim>\<open>_calculate_fast\<close> returns on the same arguments,
  so the result of \<^verbatim>\<open>calculate\<close> does not depend on the performance threshold that selects
  the branch.
\<close>

theorem exact_branch_is_fast_branch:
  "calculate_exact pd links baseline_pr damping eta_protect eta_boost tolerance max_iter
     = calculate_fast pd links baseline_pr damping eta_protect eta_boost tolerance max_iter
   \<and> calculate (self\<lparr>performance_threshold := threshold\<rparr>) nxpr pages links damping_arg
         max_iter_arg tolerance_arg link_weights protected_pages boosted_pages eta_protect
         eta_boost alpha_cap
     = calculate self nxpr pages links damping_arg max_iter_arg tolerance_arg link_weights
         protected_pages boosted_pages eta_protect eta_boost alpha_cap"
proof -
  have "estimate_computation_time (self\<lparr>performance_threshold := threshold\<rparr>) n m
          = estimate_computation_time self n m" for n m
    by (simp add: estimate_computation_time_def)
  moreover have "calculate_baseline_pagerank (self\<lparr>performance_threshold := threshold\<rparr>)
          nxpr pd' links d lw = calculate_baseline_pagerank self nxpr pd' links d lw" for pd' d lw
    by (simp add: calculate_baseline_pagerank_def)
  ultimately show ?thesis
    by (auto simp: calculate_exact_def calculate_def Let_def case_prod_beta split: sum.splits)
qed

subsection \<open>URLs that match no page\<close>

lemma dict_set_keys: "fst ` set (dict_set k v d) = insert k (fst ` set d)"
proof (induction d)
  case Nil
  then show ?case by simp
next
  case (Cons x d)
  obtain k' v' where x: "x = (k', v')" by (cases x)
  show ?case
  proof (cases "k = k'")
    case True
    then show ?thesis by (auto simp: x)
  next
    case False
    then show ?thesis using Cons.IH by (auto simp: x)
  qed
qed

lemma build_mappings_keys:
  "fst ` set (snd (fold (\<lambda>p (i2u, u2i).
       (dict_set (page_id p) (url p) i2u, dict_set (url p) (page_id p) u2i)) pages acc))
     = url ` set pages \<union> fst ` set (snd acc)"
  by (induction pages arbitrary: acc) (auto simp: dict_set_keys split: prod.splits)

lemma url_to_id_keys: "fst ` set (snd (build_mappings pages)) = url ` set pages"
  unfolding build_mappings_def by (simp add: build_mappings_keys)

lemma url_to_id_miss:
  "u \<notin> url ` set pages \<Longrightarrow> map_of (snd (build_mappings pages)) u = None"
  by (simp add: map_of_eq_None_iff url_to_id_keys)

lemma collect_factors_skip:
  assumes "map_of u2i u = None"
  shows "collect_factors u2i (before @ (u, f) # after) = collect_factors u2i (before @ after)"
  using assms by (simp add: collect_factors_def)

lemma prepare_page_data_skip:
  assumes "u \<notin> url ` set pages"
  shows "prepare_page_data pages (Some (before @ (u, f) # after)) b c
           = prepare_page_data pages (Some (before @ after)) b c"
    and "prepare_page_data pages a (Some (before @ (u, f) # after)) c
           = prepare_page_data pages a (Some (before @ after)) c"
    and "prepare_page_data pages a b (Some (before @ (u, f) # after))
           = prepare_page_data pages a b (Some (before @ after))"
  using collect_factors_skip [OF url_to_id_miss [OF assms]]
  by (simp_all add: prepare_page_data_def truthy_def case_prod_beta)

text \<open>
  C10. An entry of the protected-pages, boosted-pages or outflow-cap dictionary whose URL
  is the URL of no page changes nothing: \<^verbatim>\<open>calculate\<close> has the same outcome (the same
  scores, the same exception of the baseline, if any) as with the entry removed.
\<close>

theorem unmatched_url_is_ignored:
  assumes "u \<notin> url ` set pages"
  shows "calculate self nxpr pages links damping max_iter tolerance link_weights
           (Some (before @ (u, f) # after)) boosted_pages eta_protect eta_boost alpha_cap
         = calculate self nxpr pages links damping max_iter tolerance link_weights
           (Some (before @ after)) boosted_pages eta_protect eta_boost alpha_cap
       \<and> calculate self nxpr pages links damping max_iter tolerance link_weights
           protected_pages (Some (before @ (u, f) # after)) eta_protect eta_boost alpha_cap
         = calculate self nxpr pages links damping max_iter tolerance link_weights
           protected_pages (Some (before @ after)) eta_protect eta_boost alpha_cap
       \<and> calculate self nxpr pages links damping max_iter tolerance link_weights
           protected_pages boosted_pages eta_protect eta_boost (Some (before @ (u, f) # after))
         = calculate self nxpr pages links damping max_iter tolerance link_weights
           protected_pages boosted_pages eta_protect eta_boost (Some (before @ after))"
  by (simp add: calculate_def prepare_page_data_skip [OF assms])

theorem unmatched_url_is_ignored_witness:
  "''a/gone'' \<notin> url ` set two_pages
   \<and> calculate default_calculator uniform_nx two_pages [(1, 2), (2, 1)] None None None None
       (Some ([(''a/leaf'', 1 / 2)] @ (''a/gone'', 9 / 10) # [])) None (5 / 100) (8 / 100) None
     = calculate default_calculator uniform_nx two_pages [(1, 2), (2, 1)] None None None None
       (Some ([(''a/leaf'', 1 / 2)] @ [])) None (5 / 100) (8 / 100) None
   \<and> calculate default_calculator uniform_nx two_pages [(1, 2), (2, 1)] None None None None
       (Some ([(''a/leaf'', 1 / 2)] @ (''a/gone'', 9 / 10) # [])) None (5 / 100) (8 / 100) None
     = Inr (Some [(1, 1 / 2), (2, 1 / 2)])"
proof -
  have h: "''a/gone'' \<notin> url ` set two_pages"
    by (simp add: two_pages_def mk_page_def)
  have r: "calculate default_calculator uniform_nx two_pages [(1, 2), (2, 1)] None None None None
     (Some ([(''a/leaf'', 1 / 2)] @ (''a/gone'', 9 / 10) # [])) None (5 / 100) (8 / 100) None
   = Inr (Some [(1, 1 / 2), (2, 1 / 2)])"
    by code_simp
  from unmatched_url_is_ignored [OF h, of default_calculator uniform_nx "[(1, 2), (2, 1)]"
      None None None None "[(''a/leaf'', 1 / 2)]" "9 / 10" "[]" None "5 / 100" "8 / 100" None]
  have e: "calculate default_calculator uniform_nx two_pages [(1, 2), (2, 1)] None None None None
       (Some ([(''a/leaf'', 1 / 2)] @ (''a/gone'', 9 / 10) # [])) None (5 / 100) (8 / 100) None
     = calculate default_calculator uniform_nx two_pages [(1, 2), (2, 1)] None None None None
       (Some ([(''a/leaf'', 1 / 2)] @ [])) None (5 / 100) (8 / 100) None"
    by (rule conjunct1)
  show ?thesis using h e r by (intro conjI)
qed

subsection \<open>Totality of the constrained iteration\<close>



























lemma dict_set_fresh: "k \<notin> fst ` set d \<Longrightarrow> dict_set k v d = d @ [(k, v)]"
  by (induction d) auto

lemma fold_dict_set_distinct:
  "distinct (map fst (acc @ kvs)) \<Longrightarrow>
   fold (\<lambda>(k, x) d. dict_set k x d) kvs acc = acc @ kvs"
proof (induction kvs arbitrary: acc)
  case Nil
  then show ?case by simp
next
  case (Cons kv kvs)
  obtain k x where kv: "kv = (k, x)" by (cases kv)
  have fresh: "k \<notin> fst ` set acc" using Cons.prems by (auto simp: kv)
  have "distinct (map fst ((acc @ [(k, x)]) @ kvs))" using Cons.prems by (simp add: kv)
  from Cons.IH [OF this] show ?case by (simp add: kv dict_set_fresh [OF fresh])
qed

lemma scores_dict_distinct:
  assumes "distinct page_ids" "length p = length page_ids"
  shows "scores_dict page_ids p = zip page_ids p"
  using fold_dict_set_distinct [of "[]" "zip page_ids p"] assms
  by (simp add: scores_dict_def)

subsection \<open>The sum of the returned scores\<close>











lemma zip_with_map: "zip ys (map g ys) = map (\<lambda>y. (y, g y)) ys"
  by (induction ys) simp_all


lemma calculate_fast_no_iteration:
  assumes "max_iter \<le> 0" "distinct (map page_id (pd_pages pd))"
  shows "calculate_fast pd links baseline_pr damping eta_protect eta_boost tolerance max_iter
           = Some (map (\<lambda>pid. (pid, dict_get baseline_pr pid (1 / real (length (pd_pages pd)))))
                     (map page_id (pd_pages pd)))"
proof -
  let ?ids = "map page_id (pd_pages pd)"
  let ?p = "map (\<lambda>pid. dict_get baseline_pr pid (1 / real (length (pd_pages pd)))) ?ids"
  have "scores_dict ?ids ?p = zip ?ids ?p"
    using assms(2) by (intro scores_dict_distinct) simp_all
  also have "\<dots> = map (\<lambda>pid. (pid, dict_get baseline_pr pid (1 / real (length (pd_pages pd)))))
                     ?ids"
    by (rule zip_with_map)
  finally show ?thesis using assms(1)
    by (simp add: calculate_fast_def build_transition_matrix_def Let_def)
qed











end
